theory Spec2Isabelle
  imports Main "HOL-Library.Word" "HOL-Library.Multiset"
begin

section \<open>The growable array of Array.h\<close>

text \<open>
  The class template \<open>abouttt::Array<T>\<close> owns one heap buffer through the three members
  \<open>mData\<close>, \<open>mCount\<close> and \<open>mCapacity\<close>. The model keeps the three members as a record.
  \<open>size_t\<close> is a 64-bit word, so every sum and comparison of the source wraps as it does
  in C++. The buffer a non-null \<open>mData\<close> points to is held by value: a list of slots, one
  per allocated element; \<open>None\<close> is raw storage, \<open>Some v\<close> a constructed object of value
  \<open>v\<close>. A null \<open>mData\<close> is \<open>None\<close>. Two arrays of the model are two distinct C++
  objects, and, as in the source, no two of them share a buffer.

  The element type is a value type: a moved-from object keeps its value, and an
  assignment into a slot stores the value whatever the slot held before.
\<close>

type_synonym size_t = "64 word"

type_synonym 'a buffer = "'a option list"

record 'a Array =
  mData :: "'a buffer option"
  mCount :: size_t
  mCapacity :: size_t

text \<open>\<open>std::numeric_limits<size_t>::max()\<close>\<close>

definition INDEX_NONE :: size_t where
  "INDEX_NONE = - 1"

text \<open>
  The exceptions the class can let escape are \<open>std::out_of_range\<close> (from \<open>checkRange\<close>)
  and \<open>std::bad_alloc\<close> (from \<open>::operator new\<close>). A member function either returns a
  value and leaves a state, or throws and leaves the state it had reached when it threw, or
  runs into undefined behaviour of the language (a pointer outside the buffer, an inverted
  iterator range, a read of raw storage), after which nothing is known.
\<close>

datatype error = IndexOutOfRange | BadAlloc

datatype ('r, 's) result = Return 'r 's | Raise error 's | Undefined

definition andThen :: "('r, 's) result \<Rightarrow> ('r \<Rightarrow> 's \<Rightarrow> ('q, 's) result) \<Rightarrow> ('q, 's) result" where
  "andThen m f = (case m of Return r s \<Rightarrow> f r s | Raise e s \<Rightarrow> Raise e s | Undefined \<Rightarrow> Undefined)"

definition defined :: "'x option \<Rightarrow> ('x \<Rightarrow> ('r, 's) result) \<Rightarrow> ('r, 's) result" where
  "defined m f = (case m of None \<Rightarrow> Undefined | Some x \<Rightarrow> f x)"

subsection \<open>Storage and the library algorithms on it\<close>

text \<open>
  A pointer into the buffer is its offset from \<open>mData\<close>, an integer: \<open>mData + mCount - count\<close>
  may lie before the buffer. An algorithm of \<open><memory>\<close> or \<open><algorithm>\<close> is defined
  only on a range inside the buffer; it reads constructed objects only. \<open>None\<close> is
  undefined behaviour.
\<close>

definition in_bounds :: "'a buffer \<Rightarrow> int \<Rightarrow> nat \<Rightarrow> bool" where
  "in_bounds buf p n \<longleftrightarrow> 0 \<le> p \<and> nat p + n \<le> length buf"

definition read_n :: "'a buffer \<Rightarrow> int \<Rightarrow> nat \<Rightarrow> 'a list option" where
  "read_n buf p n =
     (if in_bounds buf p n \<and> list_all (\<lambda>s. s \<noteq> None) (take n (drop (nat p) buf))
      then Some (map the (take n (drop (nat p) buf))) else None)"

definition write_n :: "'a buffer \<Rightarrow> int \<Rightarrow> 'a list \<Rightarrow> 'a buffer option" where
  "write_n buf p vs =
     (if in_bounds buf p (length vs)
      then Some (take (nat p) buf @ map Some vs @ drop (nat p + length vs) buf) else None)"

text \<open>\<open>std::destroy_n(p, n)\<close>: the objects end, their slots are raw storage again.\<close>

definition destroy_n :: "'a buffer \<Rightarrow> int \<Rightarrow> nat \<Rightarrow> 'a buffer option" where
  "destroy_n buf p n =
     (if in_bounds buf p n \<and> list_all (\<lambda>s. s \<noteq> None) (take n (drop (nat p) buf))
      then Some (take (nat p) buf @ replicate n None @ drop (nat p + n) buf) else None)"

definition destroy_at :: "'a buffer \<Rightarrow> int \<Rightarrow> 'a buffer option" where
  "destroy_at buf p = destroy_n buf p 1"

text \<open>\<open>std::destroy(first, last)\<close>\<close>

definition destroy :: "'a buffer \<Rightarrow> int \<Rightarrow> int \<Rightarrow> 'a buffer option" where
  "destroy buf first last' = (if first \<le> last' then destroy_n buf first (nat (last' - first)) else None)"

text \<open>
  \<open>std::uninitialized_move_n(first, n, d_first)\<close> from the buffer \<open>src\<close> into the buffer
  \<open>dst\<close> (the same buffer in the insertions, where the two ranges do not overlap; the old
  and the new buffer in \<open>reallocate\<close>). The result is the destination buffer.
\<close>

definition uninitialized_move_n :: "'a buffer \<Rightarrow> int \<Rightarrow> nat \<Rightarrow> 'a buffer \<Rightarrow> int \<Rightarrow> 'a buffer option" where
  "uninitialized_move_n src first n dst d_first =
     (case read_n src first n of None \<Rightarrow> None | Some vs \<Rightarrow> write_n dst d_first vs)"

text \<open>
  \<open>std::uninitialized_copy_n(first, n, d_first)\<close> and
  \<open>std::uninitialized_copy(first, last, d_first)\<close>; \<open>src\<close> is the memory the source
  pointer points into, which is another object than \<open>dst\<close>.
\<close>

definition uninitialized_copy_n :: "'a buffer \<Rightarrow> int \<Rightarrow> nat \<Rightarrow> 'a buffer \<Rightarrow> int \<Rightarrow> 'a buffer option" where
  "uninitialized_copy_n src first n dst d_first =
     (case read_n src first n of None \<Rightarrow> None | Some vs \<Rightarrow> write_n dst d_first vs)"

definition uninitialized_copy :: "'a buffer \<Rightarrow> int \<Rightarrow> int \<Rightarrow> 'a buffer \<Rightarrow> int \<Rightarrow> 'a buffer option" where
  "uninitialized_copy src first last' dst d_first =
     (if first \<le> last' then uninitialized_copy_n src first (nat (last' - first)) dst d_first else None)"

definition uninitialized_fill_n :: "'a buffer \<Rightarrow> int \<Rightarrow> nat \<Rightarrow> 'a \<Rightarrow> 'a buffer option" where
  "uninitialized_fill_n buf p n v = write_n buf p (replicate n v)"

definition construct_at :: "'a buffer \<Rightarrow> int \<Rightarrow> 'a \<Rightarrow> 'a buffer option" where
  "construct_at buf p v = write_n buf p [v]"

text \<open>
  \<open>std::move_backward(first, last, d_last)\<close> needs a valid range, \<open>first \<le> last\<close>,
  and \<open>d_last\<close> outside \<open>(first, last]\<close>; it then copies from the last element to the
  first, which is reading the whole range before writing it.
\<close>

definition move_backward :: "'a buffer \<Rightarrow> int \<Rightarrow> int \<Rightarrow> int \<Rightarrow> 'a buffer option" where
  "move_backward buf first last' d_last =
     (if first \<le> last' \<and> \<not> (first < d_last \<and> d_last \<le> last')
      then (case read_n buf first (nat (last' - first)) of None \<Rightarrow> None
            | Some vs \<Rightarrow> write_n buf (d_last - (last' - first)) vs)
      else None)"

text \<open>
  The three-argument \<open>std::move(first, last, d_first)\<close> needs \<open>first \<le> last\<close> and
  \<open>d_first\<close> outside \<open>[first, last)\<close>.
\<close>

definition std_move :: "'a buffer \<Rightarrow> int \<Rightarrow> int \<Rightarrow> int \<Rightarrow> 'a buffer option" where
  "std_move buf first last' d_first =
     (if first \<le> last' \<and> \<not> (first \<le> d_first \<and> d_first < last')
      then (case read_n buf first (nat (last' - first)) of None \<Rightarrow> None
            | Some vs \<Rightarrow> write_n buf d_first vs)
      else None)"

text \<open>Reading the object at a pointer, \<open>*p\<close>.\<close>

definition deref :: "'a buffer \<Rightarrow> int \<Rightarrow> 'a option" where
  "deref buf p = (if 0 \<le> p \<and> nat p < length buf then buf ! nat p else None)"

text \<open>
  \<open>std::find_if(first, first + n, pred)\<close> scans forward and returns the first position
  whose object satisfies \<open>pred\<close>, or the end of the range; \<open>std::find\<close> is the same
  scan with equality.
\<close>

fun find_if_n :: "('a \<Rightarrow> bool) \<Rightarrow> 'a buffer \<Rightarrow> int \<Rightarrow> nat \<Rightarrow> int option" where
  "find_if_n pred buf first 0 = Some first"
| "find_if_n pred buf first (Suc n) =
     (case deref buf first of
        None \<Rightarrow> None
      | Some x \<Rightarrow> if pred x then Some first else find_if_n pred buf (first + 1) n)"

definition std_find_if :: "'a buffer \<Rightarrow> int \<Rightarrow> int \<Rightarrow> ('a \<Rightarrow> bool) \<Rightarrow> int option" where
  "std_find_if buf first last' pred =
     (if first \<le> last' then find_if_n pred buf first (nat (last' - first)) else None)"

definition std_find :: "'a buffer \<Rightarrow> int \<Rightarrow> int \<Rightarrow> 'a \<Rightarrow> int option" where
  "std_find buf first last' v = std_find_if buf first last' (\<lambda>x. x = v)"

text \<open>
  \<open>std::remove_if(first, last, pred)\<close> moves the objects that do not satisfy \<open>pred\<close>
  to the front of the range, in their order, and returns the new end; the objects from
  there on are left as they are.
\<close>

definition std_remove_if :: "'a buffer \<Rightarrow> int \<Rightarrow> int \<Rightarrow> ('a \<Rightarrow> bool) \<Rightarrow> ('a buffer \<times> int) option" where
  "std_remove_if buf first last' pred =
     (if first \<le> last' then
        (case read_n buf first (nat (last' - first)) of
           None \<Rightarrow> None
         | Some vs \<Rightarrow>
             (case write_n buf first (filter (\<lambda>x. \<not> pred x) vs) of
                None \<Rightarrow> None
              | Some buf' \<Rightarrow> Some (buf', first + int (length (filter (\<lambda>x. \<not> pred x) vs)))))
      else None)"

text \<open>
  \<open>std::sort(first, last, cmp)\<close> needs a comparison that is a strict weak ordering of
  the values of the range: irreflexive, transitive, and with a transitive equivalence
  \<open>\<not> cmp x y \<and> \<not> cmp y x\<close>. It leaves a permutation of the range in which no element
  is less than an earlier one; which one, among equivalent elements, the library does not
  say. The model inserts the elements one by one, from the last to the first.
\<close>

definition strict_weak_on :: "('a \<Rightarrow> 'a \<Rightarrow> bool) \<Rightarrow> 'a list \<Rightarrow> bool" where
  "strict_weak_on cmp xs \<longleftrightarrow>
     (\<forall>x \<in> set xs. \<not> cmp x x) \<and>
     (\<forall>x \<in> set xs. \<forall>y \<in> set xs. \<forall>z \<in> set xs. cmp x y \<and> cmp y z \<longrightarrow> cmp x z) \<and>
     (\<forall>x \<in> set xs. \<forall>y \<in> set xs. \<forall>z \<in> set xs.
        (\<not> cmp x y \<and> \<not> cmp y x) \<and> (\<not> cmp y z \<and> \<not> cmp z y) \<longrightarrow> \<not> cmp x z \<and> \<not> cmp z x)"

fun insert_by :: "('a \<Rightarrow> 'a \<Rightarrow> bool) \<Rightarrow> 'a \<Rightarrow> 'a list \<Rightarrow> 'a list" where
  "insert_by cmp x [] = [x]"
| "insert_by cmp x (y # ys) = (if cmp y x then y # insert_by cmp x ys else x # y # ys)"

definition std_sort :: "'a buffer \<Rightarrow> int \<Rightarrow> int \<Rightarrow> ('a \<Rightarrow> 'a \<Rightarrow> bool) \<Rightarrow> 'a buffer option" where
  "std_sort buf first last' cmp =
     (if first \<le> last' then
        (case read_n buf first (nat (last' - first)) of
           None \<Rightarrow> None
         | Some vs \<Rightarrow>
             if strict_weak_on cmp vs then write_n buf first (foldr (insert_by cmp) vs []) else None)
      else None)"

text \<open>
  \<open>::operator new(sizeof(T) * n)\<close> returns raw storage for \<open>n\<close> objects or throws
  \<open>std::bad_alloc\<close> (\<open>None\<close>). No object is larger than \<open>PTRDIFF_MAX\<close> bytes and an
  element has at least one byte, so a request for more elements than that fails; whether
  a smaller one succeeds is up to the environment, the parameter \<open>avail\<close>. The product
  \<open>sizeof(T) * n\<close> is taken not to wrap.
\<close>

definition PTRDIFF_MAX :: nat where
  "PTRDIFF_MAX = 2 ^ 63 - 1"

definition operator_new :: "(nat \<Rightarrow> bool) \<Rightarrow> size_t \<Rightarrow> 'a buffer option" where
  "operator_new avail n =
     (if unat n \<le> PTRDIFF_MAX \<and> avail (unat n) then Some (replicate (unat n) None) else None)"

text \<open>
  The storage \<open>mData\<close> points to; a null pointer points to none, and the only range at
  a null pointer is the empty one. \<open>store\<close> writes the buffer back through the pointer.
\<close>

definition mem :: "'a Array \<Rightarrow> 'a buffer" where
  "mem a = (case mData a of None \<Rightarrow> [] | Some buf \<Rightarrow> buf)"

definition store :: "'a Array \<Rightarrow> 'a buffer \<Rightarrow> 'a Array" where
  "store a buf = (case mData a of None \<Rightarrow> a | Some _ \<Rightarrow> a\<lparr>mData := Some buf\<rparr>)"

subsection \<open>The private member functions\<close>

definition checkRange :: "'a Array \<Rightarrow> size_t \<Rightarrow> bool \<Rightarrow> (unit, 'a Array) result" where
  "checkRange a index bAllowEnd =
     (if index \<ge> mCount a + (if bAllowEnd then 1 else 0) then Raise IndexOutOfRange a
      else Return () a)"

definition cleanup :: "'a Array \<Rightarrow> (unit, 'a Array) result" where
  "cleanup a =
     (case mData a of
        None \<Rightarrow> Return () a
      | Some buf \<Rightarrow>
          defined (destroy_n buf 0 (unat (mCount a)))
            (\<lambda>_. Return () \<lparr>mData = None, mCount = 0, mCapacity = 0\<rparr>))"

definition reallocate :: "(nat \<Rightarrow> bool) \<Rightarrow> 'a Array \<Rightarrow> size_t \<Rightarrow> (unit, 'a Array) result" where
  "reallocate avail a newCapacity =
     (if newCapacity = mCapacity a then Return () a
      else if newCapacity = 0 then cleanup a
      else
        (case operator_new avail newCapacity of
           None \<Rightarrow> Raise BadAlloc a
         | Some newData \<Rightarrow>
             (let newCount = min (mCount a) newCapacity in
              (case mData a of
                 None \<Rightarrow> Return () \<lparr>mData = Some newData, mCount = newCount, mCapacity = newCapacity\<rparr>
               | Some buf \<Rightarrow>
                   defined (uninitialized_move_n buf 0 (unat newCount) newData 0) (\<lambda>newData'.
                   defined (destroy_n buf 0 (unat (mCount a))) (\<lambda>_.
                     Return () \<lparr>mData = Some newData', mCount = newCount, mCapacity = newCapacity\<rparr>))))))"

definition ensureCapacity :: "(nat \<Rightarrow> bool) \<Rightarrow> 'a Array \<Rightarrow> size_t \<Rightarrow> (unit, 'a Array) result" where
  "ensureCapacity avail a minCapacity =
     (if minCapacity > mCapacity a then
        (let grow = mCapacity a + drop_bit 1 (mCapacity a);
             newCapacity = max minCapacity (if mCapacity a = 0 then 8 else grow)
         in reallocate avail a newCapacity)
      else Return () a)"

text \<open>
  \<open>insertImpl(index, ptr, count)\<close>: \<open>ptr\<close> is the memory at the source pointer, which is
  not inside this array's buffer (the source is another object); \<open>count'\<close> is the
  parameter \<open>count\<close>.
\<close>

definition insertImpl :: "(nat \<Rightarrow> bool) \<Rightarrow> 'a Array \<Rightarrow> size_t \<Rightarrow> 'a buffer \<Rightarrow> size_t \<Rightarrow> (size_t, 'a Array) result" where
  "insertImpl avail a index ptr count' =
     andThen (checkRange a index True) (\<lambda>_ a.
       if count' = 0 then Return index a
       else
         andThen (ensureCapacity avail a (mCount a + count')) (\<lambda>_ a.
           defined
             (if index < mCount a then
                (case uninitialized_move_n (mem a) (uint (mCount a) - uint count') (unat count')
                        (mem a) (uint (mCount a)) of
                   None \<Rightarrow> None
                 | Some b \<Rightarrow>
                     move_backward b (uint index) (uint (mCount a) - uint count') (uint (mCount a)))
              else Some (mem a))
             (\<lambda>b. defined (uninitialized_copy_n ptr 0 (unat count') b (uint index))
               (\<lambda>b'. Return index ((store a b')\<lparr>mCount := mCount a + count'\<rparr>)))))"

subsection \<open>The public member functions\<close>

definition EmplaceAt :: "(nat \<Rightarrow> bool) \<Rightarrow> 'a Array \<Rightarrow> size_t \<Rightarrow> 'a \<Rightarrow> (size_t, 'a Array) result" where
  "EmplaceAt avail a index v =
     andThen (checkRange a index True) (\<lambda>_ a.
       andThen (ensureCapacity avail a (mCount a + 1)) (\<lambda>_ a.
         defined
           (if index < mCount a then
              (case uninitialized_move_n (mem a) (uint (mCount a) - 1) 1 (mem a) (uint (mCount a)) of
                 None \<Rightarrow> None
               | Some b \<Rightarrow> move_backward b (uint index) (uint (mCount a) - 1) (uint (mCount a)))
            else Some (mem a))
           (\<lambda>b. defined (construct_at b (uint index) v)
             (\<lambda>b'. Return index ((store a b')\<lparr>mCount := mCount a + 1\<rparr>)))))"

definition Insert_value :: "(nat \<Rightarrow> bool) \<Rightarrow> 'a Array \<Rightarrow> size_t \<Rightarrow> 'a \<Rightarrow> (size_t, 'a Array) result" where
  "Insert_value avail a index v = EmplaceAt avail a index v"

text \<open>\<open>Emplace\<close> returns a reference to the new element; the model returns its value.\<close>

definition Emplace :: "(nat \<Rightarrow> bool) \<Rightarrow> 'a Array \<Rightarrow> 'a \<Rightarrow> ('a, 'a Array) result" where
  "Emplace avail a v =
     andThen (EmplaceAt avail a (mCount a) v) (\<lambda>index a.
       defined (deref (mem a) (uint index)) (\<lambda>x. Return x a))"

definition Add :: "(nat \<Rightarrow> bool) \<Rightarrow> 'a Array \<Rightarrow> 'a \<Rightarrow> (unit, 'a Array) result" where
  "Add avail a v = andThen (Emplace avail a v) (\<lambda>_ a. Return () a)"

text \<open>
  \<open>operator[]\<close> returns a reference: \<open>subscript\<close> reads through it, \<open>subscript_assign\<close>
  is \<open>a[index] = v\<close>.
\<close>

definition subscript :: "'a Array \<Rightarrow> size_t \<Rightarrow> ('a, 'a Array) result" where
  "subscript a index =
     andThen (checkRange a index False) (\<lambda>_ a.
       defined (deref (mem a) (uint index)) (\<lambda>x. Return x a))"

definition subscript_assign :: "'a Array \<Rightarrow> size_t \<Rightarrow> 'a \<Rightarrow> (unit, 'a Array) result" where
  "subscript_assign a index v =
     andThen (checkRange a index False) (\<lambda>_ a.
       defined (deref (mem a) (uint index)) (\<lambda>_.
         defined (write_n (mem a) (uint index) [v]) (\<lambda>b. Return () (store a b))))"

definition Capacity :: "'a Array \<Rightarrow> size_t" where
  "Capacity a = mCapacity a"

definition Count :: "'a Array \<Rightarrow> size_t" where
  "Count a = mCount a"

definition IsEmpty :: "'a Array \<Rightarrow> bool" where
  "IsEmpty a \<longleftrightarrow> mCount a = 0"

definition Clear :: "'a Array \<Rightarrow> (unit, 'a Array) result" where
  "Clear a =
     defined (destroy_n (mem a) 0 (unat (mCount a))) (\<lambda>b. Return () ((store a b)\<lparr>mCount := 0\<rparr>))"

definition Find :: "'a Array \<Rightarrow> 'a \<Rightarrow> (size_t, 'a Array) result" where
  "Find a v =
     defined (std_find (mem a) 0 (uint (mCount a)) v) (\<lambda>it.
       Return (if it \<noteq> uint (mCount a) then word_of_int it else INDEX_NONE) a)"

definition FindIf :: "'a Array \<Rightarrow> ('a \<Rightarrow> bool) \<Rightarrow> (size_t, 'a Array) result" where
  "FindIf a pred =
     defined (std_find_if (mem a) 0 (uint (mCount a)) pred) (\<lambda>it.
       Return (if it \<noteq> uint (mCount a) then word_of_int it else INDEX_NONE) a)"

text \<open>
  The loop \<open>for (size_t i = mCount; i-- > 0; )\<close> of \<open>FindLast\<close> and \<open>FindLastIf\<close>;
  the argument is the value of \<open>i\<close> before the test.
\<close>

fun FindLastIf_loop :: "'a Array \<Rightarrow> ('a \<Rightarrow> bool) \<Rightarrow> nat \<Rightarrow> (size_t, 'a Array) result" where
  "FindLastIf_loop a pred 0 = Return INDEX_NONE a"
| "FindLastIf_loop a pred (Suc i) =
     defined (deref (mem a) (int i)) (\<lambda>x.
       if pred x then Return (word_of_nat i) a else FindLastIf_loop a pred i)"

definition FindLastIf :: "'a Array \<Rightarrow> ('a \<Rightarrow> bool) \<Rightarrow> (size_t, 'a Array) result" where
  "FindLastIf a pred = FindLastIf_loop a pred (unat (mCount a))"

definition FindLast :: "'a Array \<Rightarrow> 'a \<Rightarrow> (size_t, 'a Array) result" where
  "FindLast a v = FindLastIf_loop a (\<lambda>x. x = v) (unat (mCount a))"

definition Contains :: "'a Array \<Rightarrow> 'a \<Rightarrow> (bool, 'a Array) result" where
  "Contains a v = andThen (Find a v) (\<lambda>index a. Return (index \<noteq> INDEX_NONE) a)"

definition ContainsIf :: "'a Array \<Rightarrow> ('a \<Rightarrow> bool) \<Rightarrow> (bool, 'a Array) result" where
  "ContainsIf a pred = andThen (FindIf a pred) (\<lambda>index a. Return (index \<noteq> INDEX_NONE) a)"

definition Insert_array :: "(nat \<Rightarrow> bool) \<Rightarrow> 'a Array \<Rightarrow> size_t \<Rightarrow> 'a Array \<Rightarrow> (size_t, 'a Array) result" where
  "Insert_array avail a index source = insertImpl avail a index (mem source) (mCount source)"

text \<open>
  \<open>Insert(size_t, Array&&)\<close> changes two objects, this array and the source, the two
  components of the state.
\<close>

definition Insert_move :: "(nat \<Rightarrow> bool) \<Rightarrow> 'a Array \<times> 'a Array \<Rightarrow> size_t \<Rightarrow> (size_t, 'a Array \<times> 'a Array) result" where
  "Insert_move avail st index =
     (case st of (a, source) \<Rightarrow>
        (case insertImpl avail a index (mem source) (mCount source) of
           Return result a' \<Rightarrow>
             (case Clear source of
                Return _ source' \<Rightarrow> Return result (a', source')
              | Raise e source' \<Rightarrow> Raise e (a', source')
              | Undefined \<Rightarrow> Undefined)
         | Raise e a' \<Rightarrow> Raise e (a', source)
         | Undefined \<Rightarrow> Undefined))"

definition Insert_ilist :: "(nat \<Rightarrow> bool) \<Rightarrow> 'a Array \<Rightarrow> size_t \<Rightarrow> 'a list \<Rightarrow> (size_t, 'a Array) result" where
  "Insert_ilist avail a index ilist =
     insertImpl avail a index (map Some ilist) (word_of_nat (length ilist))"

definition Insert_range :: "(nat \<Rightarrow> bool) \<Rightarrow> 'a Array \<Rightarrow> size_t \<Rightarrow> 'a buffer \<Rightarrow> size_t \<Rightarrow> (size_t, 'a Array) result" where
  "Insert_range avail a index ptr count' = insertImpl avail a index ptr count'"

definition Append_array :: "(nat \<Rightarrow> bool) \<Rightarrow> 'a Array \<Rightarrow> 'a Array \<Rightarrow> (unit, 'a Array) result" where
  "Append_array avail a source =
     andThen (Insert_array avail a (mCount a) source) (\<lambda>_ a. Return () a)"

definition Append_move :: "(nat \<Rightarrow> bool) \<Rightarrow> 'a Array \<times> 'a Array \<Rightarrow> (unit, 'a Array \<times> 'a Array) result" where
  "Append_move avail st =
     andThen (Insert_move avail st (mCount (fst st))) (\<lambda>_ st. Return () st)"

definition Append_ilist :: "(nat \<Rightarrow> bool) \<Rightarrow> 'a Array \<Rightarrow> 'a list \<Rightarrow> (unit, 'a Array) result" where
  "Append_ilist avail a ilist =
     andThen (Insert_ilist avail a (mCount a) ilist) (\<lambda>_ a. Return () a)"

definition Append_range :: "(nat \<Rightarrow> bool) \<Rightarrow> 'a Array \<Rightarrow> 'a buffer \<Rightarrow> size_t \<Rightarrow> (unit, 'a Array) result" where
  "Append_range avail a ptr count' =
     andThen (Insert_range avail a (mCount a) ptr count') (\<lambda>_ a. Return () a)"

definition RemoveAt :: "'a Array \<Rightarrow> size_t \<Rightarrow> (unit, 'a Array) result" where
  "RemoveAt a index =
     andThen (checkRange a index False) (\<lambda>_ a.
       defined (destroy_at (mem a) (uint index)) (\<lambda>b.
         defined
           (if index < mCount a - 1
            then std_move b (uint index + 1) (uint (mCount a)) (uint index)
            else Some b)
           (\<lambda>b'. Return () ((store a b')\<lparr>mCount := mCount a - 1\<rparr>))))"

definition Remove :: "'a Array \<Rightarrow> 'a \<Rightarrow> (bool, 'a Array) result" where
  "Remove a v =
     andThen (Find a v) (\<lambda>index a.
       if index \<noteq> INDEX_NONE then andThen (RemoveAt a index) (\<lambda>_ a. Return True a)
       else Return False a)"

definition RemoveAll :: "'a Array \<Rightarrow> ('a \<Rightarrow> bool) \<Rightarrow> (size_t, 'a Array) result" where
  "RemoveAll a pred =
     defined (std_remove_if (mem a) 0 (uint (mCount a)) pred) (\<lambda>(b, newEnd).
       if newEnd = uint (mCount a) then Return 0 (store a b)
       else
         (let removedCount = word_of_int (uint (mCount a) - newEnd) :: size_t in
          defined (destroy b newEnd (uint (mCount a))) (\<lambda>b'.
            Return removedCount ((store a b')\<lparr>mCount := mCount a - removedCount\<rparr>))))"

definition Reserve :: "(nat \<Rightarrow> bool) \<Rightarrow> 'a Array \<Rightarrow> size_t \<Rightarrow> (unit, 'a Array) result" where
  "Reserve avail a newCapacity =
     (if newCapacity > mCapacity a then reallocate avail a newCapacity else Return () a)"

definition Resize :: "(nat \<Rightarrow> bool) \<Rightarrow> 'a Array \<Rightarrow> size_t \<Rightarrow> 'a \<Rightarrow> (unit, 'a Array) result" where
  "Resize avail a newCount v =
     (if newCount > mCount a then
        andThen (ensureCapacity avail a newCount) (\<lambda>_ a.
          defined (uninitialized_fill_n (mem a) (uint (mCount a)) (unat (newCount - mCount a)) v)
            (\<lambda>b. Return () ((store a b)\<lparr>mCount := newCount\<rparr>)))
      else if newCount < mCount a then
        defined (destroy_n (mem a) (uint newCount) (unat (mCount a - newCount)))
          (\<lambda>b. Return () ((store a b)\<lparr>mCount := newCount\<rparr>))
      else Return () (a\<lparr>mCount := newCount\<rparr>))"

definition Shrink :: "(nat \<Rightarrow> bool) \<Rightarrow> 'a Array \<Rightarrow> (unit, 'a Array) result" where
  "Shrink avail a =
     (if mCapacity a > mCount a then reallocate avail a (mCount a) else Return () a)"

definition Sort :: "'a Array \<Rightarrow> ('a \<Rightarrow> 'a \<Rightarrow> bool) \<Rightarrow> (unit, 'a Array) result" where
  "Sort a cmp =
     defined (std_sort (mem a) 0 (uint (mCount a)) cmp) (\<lambda>b. Return () (store a b))"

definition Swap :: "'a Array \<times> 'a Array \<Rightarrow> 'a Array \<times> 'a Array" where
  "Swap st =
     (case st of (a, other) \<Rightarrow>
        (\<lparr>mData = mData other, mCount = mCount other, mCapacity = mCapacity other\<rparr>,
         \<lparr>mData = mData a, mCount = mCount a, mCapacity = mCapacity a\<rparr>))"

subsection \<open>Constructors, destructor and assignments\<close>

text \<open>
  A constructor has no state before it: it returns the new object, or throws and leaves
  none.
\<close>

definition Array_sized :: "(nat \<Rightarrow> bool) \<Rightarrow> size_t \<Rightarrow> ('a Array, unit) result" where
  "Array_sized avail capacity =
     (if capacity > 0 then
        (case operator_new avail capacity of
           None \<Rightarrow> Raise BadAlloc ()
         | Some buf \<Rightarrow> Return \<lparr>mData = Some buf, mCount = 0, mCapacity = capacity\<rparr> ())
      else Return \<lparr>mData = None, mCount = 0, mCapacity = capacity\<rparr> ())"

text \<open>\<open>Array() : Array(0)\<close> allocates nothing, whatever the allocator would answer.\<close>

definition Array_default :: "('a Array, unit) result" where
  "Array_default = Array_sized (\<lambda>_. False) 0"

definition Array_ilist :: "(nat \<Rightarrow> bool) \<Rightarrow> 'a list \<Rightarrow> ('a Array, unit) result" where
  "Array_ilist avail ilist =
     andThen (Array_sized avail (word_of_nat (length ilist))) (\<lambda>a _.
       defined (uninitialized_copy (map Some ilist) 0 (int (length ilist)) (mem a) 0) (\<lambda>b.
         Return ((store a b)\<lparr>mCount := word_of_nat (length ilist)\<rparr>) ()))"

definition Array_copy :: "(nat \<Rightarrow> bool) \<Rightarrow> 'a Array \<Rightarrow> ('a Array, unit) result" where
  "Array_copy avail other =
     andThen (Array_sized avail (mCount other)) (\<lambda>a _.
       defined (uninitialized_copy (mem other) 0 (uint (mCount other)) (mem a) 0) (\<lambda>b.
         Return ((store a b)\<lparr>mCount := mCount other\<rparr>) ()))"

text \<open>
  The move constructor returns the new object and leaves the source changed: the pair is
  (new object, source afterwards).
\<close>

definition Array_move :: "'a Array \<Rightarrow> 'a Array \<times> 'a Array" where
  "Array_move other =
     (\<lparr>mData = mData other, mCount = mCount other, mCapacity = mCapacity other\<rparr>,
      \<lparr>mData = None, mCount = 0, mCapacity = 0\<rparr>)"

definition destructor :: "'a Array \<Rightarrow> (unit, 'a Array) result" where
  "destructor a = cleanup a"

text \<open>
  The assignments from another array are the branch \<open>this != &other\<close>: the two arrays
  of the model are two objects. The temporary of the copy assignment is destroyed at the
  end of the block, after the swap.
\<close>

definition assign_copy :: "(nat \<Rightarrow> bool) \<Rightarrow> 'a Array \<Rightarrow> 'a Array \<Rightarrow> (unit, 'a Array) result" where
  "assign_copy avail a other =
     (case Array_copy avail other of
        Return temp _ \<Rightarrow>
          (case Swap (a, temp) of (a', temp') \<Rightarrow>
             andThen (destructor temp') (\<lambda>_ _. Return () a'))
      | Raise e _ \<Rightarrow> Raise e a
      | Undefined \<Rightarrow> Undefined)"

definition assign_move :: "'a Array \<times> 'a Array \<Rightarrow> (unit, 'a Array \<times> 'a Array) result" where
  "assign_move st =
     (case st of (a, other) \<Rightarrow>
        (case cleanup a of
           Return _ a' \<Rightarrow>
             Return () (\<lparr>mData = mData other, mCount = mCount other, mCapacity = mCapacity other\<rparr>,
                        \<lparr>mData = None, mCount = 0, mCapacity = 0\<rparr>)
         | Raise e a' \<Rightarrow> Raise e (a', other)
         | Undefined \<Rightarrow> Undefined))"

definition assign_ilist :: "(nat \<Rightarrow> bool) \<Rightarrow> 'a Array \<Rightarrow> 'a list \<Rightarrow> (unit, 'a Array) result" where
  "assign_ilist avail a ilist =
     (case Array_ilist avail ilist of
        Return temp _ \<Rightarrow>
          (case Swap (a, temp) of (a', temp') \<Rightarrow>
             andThen (destructor temp') (\<lambda>_ _. Return () a'))
      | Raise e _ \<Rightarrow> Raise e a
      | Undefined \<Rightarrow> Undefined)"

subsection \<open>The contents and the well-formed states\<close>

text \<open>
  The elements of an array are the values of its first \<open>mCount\<close> slots. A state is
  well-formed when the buffer has \<open>mCapacity\<close> slots (none for a null pointer), the first
  \<open>mCount\<close> of them are constructed, and the capacity is one the allocator can have
  granted. The constructors build such states and the member functions keep them.
\<close>

definition elems :: "'a Array \<Rightarrow> 'a list" where
  "elems a = map the (take (unat (mCount a)) (mem a))"

definition well_formed :: "'a Array \<Rightarrow> bool" where
  "well_formed a \<longleftrightarrow>
     unat (mCapacity a) \<le> PTRDIFF_MAX \<and>
     mCount a \<le> mCapacity a \<and>
     (mData a = None \<longleftrightarrow> mCapacity a = 0) \<and>
     length (mem a) = unat (mCapacity a) \<and>
     list_all (\<lambda>s. s \<noteq> None) (take (unat (mCount a)) (mem a))"

text \<open>The invariant the specification names.\<close>

definition rep_inv :: "'a Array \<Rightarrow> bool" where
  "rep_inv a \<longleftrightarrow> mCount a \<le> mCapacity a \<and> (mData a = None \<longleftrightarrow> mCapacity a = 0)"

definition grown :: "'a Array \<Rightarrow> size_t \<Rightarrow> 'a Array" where
  "grown a n =
     (if n = mCapacity a then a
      else if n = 0 then \<lparr>mData = None, mCount = 0, mCapacity = 0\<rparr>
      else \<lparr>mData = Some (map Some (elems a) @ replicate (unat n - unat (mCount a)) None),
            mCount = mCount a, mCapacity = n\<rparr>)"

text \<open>
  The operations on one array, as values, and the values they return. \<open>exec\<close> runs one
  of them. The operations that take a second array (the source of a copy, a move or a
  swap) are \<open>op2\<close>; \<open>exec2\<close> runs one on the pair (this array, the other array).
\<close>

datatype 'a ret = R_unit | R_index size_t | R_bool bool | R_elem 'a

datatype 'a op =
    Op_subscript size_t
  | Op_subscript_assign size_t 'a
  | Op_Add 'a
  | Op_Emplace 'a
  | Op_EmplaceAt size_t 'a
  | Op_Insert_value size_t 'a
  | Op_Insert_ilist size_t "'a list"
  | Op_Insert_range size_t "'a buffer" size_t
  | Op_Append_ilist "'a list"
  | Op_Append_range "'a buffer" size_t
  | Op_Clear
  | Op_Contains 'a
  | Op_ContainsIf "'a \<Rightarrow> bool"
  | Op_Find 'a
  | Op_FindIf "'a \<Rightarrow> bool"
  | Op_FindLast 'a
  | Op_FindLastIf "'a \<Rightarrow> bool"
  | Op_RemoveAt size_t
  | Op_Remove 'a
  | Op_RemoveAll "'a \<Rightarrow> bool"
  | Op_Reserve size_t
  | Op_Resize size_t 'a
  | Op_Shrink
  | Op_Sort "'a \<Rightarrow> 'a \<Rightarrow> bool"
  | Op_assign_ilist "'a list"

definition returning :: "('r \<Rightarrow> 'q) \<Rightarrow> ('r, 's) result \<Rightarrow> ('q, 's) result" where
  "returning f m = andThen m (\<lambda>r s. Return (f r) s)"

fun exec :: "(nat \<Rightarrow> bool) \<Rightarrow> 'a op \<Rightarrow> 'a Array \<Rightarrow> ('a ret, 'a Array) result" where
  "exec avail (Op_subscript i) a = returning R_elem (subscript a i)"
| "exec avail (Op_subscript_assign i v) a = returning (\<lambda>_. R_unit) (subscript_assign a i v)"
| "exec avail (Op_Add v) a = returning (\<lambda>_. R_unit) (Add avail a v)"
| "exec avail (Op_Emplace v) a = returning R_elem (Emplace avail a v)"
| "exec avail (Op_EmplaceAt i v) a = returning R_index (EmplaceAt avail a i v)"
| "exec avail (Op_Insert_value i v) a = returning R_index (Insert_value avail a i v)"
| "exec avail (Op_Insert_ilist i il) a = returning R_index (Insert_ilist avail a i il)"
| "exec avail (Op_Insert_range i ptr cnt) a = returning R_index (Insert_range avail a i ptr cnt)"
| "exec avail (Op_Append_ilist il) a = returning (\<lambda>_. R_unit) (Append_ilist avail a il)"
| "exec avail (Op_Append_range ptr cnt) a = returning (\<lambda>_. R_unit) (Append_range avail a ptr cnt)"
| "exec avail Op_Clear a = returning (\<lambda>_. R_unit) (Clear a)"
| "exec avail (Op_Contains v) a = returning R_bool (Contains a v)"
| "exec avail (Op_ContainsIf pred) a = returning R_bool (ContainsIf a pred)"
| "exec avail (Op_Find v) a = returning R_index (Find a v)"
| "exec avail (Op_FindIf pred) a = returning R_index (FindIf a pred)"
| "exec avail (Op_FindLast v) a = returning R_index (FindLast a v)"
| "exec avail (Op_FindLastIf pred) a = returning R_index (FindLastIf a pred)"
| "exec avail (Op_RemoveAt i) a = returning (\<lambda>_. R_unit) (RemoveAt a i)"
| "exec avail (Op_Remove v) a = returning R_bool (Remove a v)"
| "exec avail (Op_RemoveAll pred) a = returning R_index (RemoveAll a pred)"
| "exec avail (Op_Reserve n) a = returning (\<lambda>_. R_unit) (Reserve avail a n)"
| "exec avail (Op_Resize n v) a = returning (\<lambda>_. R_unit) (Resize avail a n v)"
| "exec avail Op_Shrink a = returning (\<lambda>_. R_unit) (Shrink avail a)"
| "exec avail (Op_Sort cmp) a = returning (\<lambda>_. R_unit) (Sort a cmp)"
| "exec avail (Op_assign_ilist il) a = returning (\<lambda>_. R_unit) (assign_ilist avail a il)"

datatype op2 =
    Op_Insert_array size_t
  | Op_Insert_move size_t
  | Op_Append_array
  | Op_Append_move
  | Op_assign_copy
  | Op_assign_move
  | Op_Swap

text \<open>An operation on this array that only reads the other array leaves the other as it is.\<close>

definition reading :: "('r \<Rightarrow> 'q) \<Rightarrow> 'b \<Rightarrow> ('r, 'a) result \<Rightarrow> ('q, 'a \<times> 'b) result" where
  "reading f other m =
     (case m of Return r a \<Rightarrow> Return (f r) (a, other) | Raise e a \<Rightarrow> Raise e (a, other)
      | Undefined \<Rightarrow> Undefined)"

fun exec2 :: "(nat \<Rightarrow> bool) \<Rightarrow> op2 \<Rightarrow> 'a Array \<times> 'a Array \<Rightarrow> ('a ret, 'a Array \<times> 'a Array) result" where
  "exec2 avail (Op_Insert_array i) (a, other) = reading R_index other (Insert_array avail a i other)"
| "exec2 avail (Op_Insert_move i) (a, other) = returning R_index (Insert_move avail (a, other) i)"
| "exec2 avail Op_Append_array (a, other) = reading (\<lambda>_. R_unit) other (Append_array avail a other)"
| "exec2 avail Op_Append_move (a, other) = returning (\<lambda>_. R_unit) (Append_move avail (a, other))"
| "exec2 avail Op_assign_copy (a, other) = reading (\<lambda>_. R_unit) other (assign_copy avail a other)"
| "exec2 avail Op_assign_move (a, other) = returning (\<lambda>_. R_unit) (assign_move (a, other))"
| "exec2 avail Op_Swap (a, other) = Return R_unit (Swap (a, other))"

text \<open>
  The states a program can reach: what a constructor returns, and what an operation leaves
  behind, whether it returns or throws, when run on reachable arrays.
\<close>

inductive reachable :: "'a Array \<Rightarrow> bool" where
  default: "Array_default = Return a () \<Longrightarrow> reachable a"
| sized: "Array_sized avail capacity = Return a () \<Longrightarrow> reachable a"
| ilist: "Array_ilist avail il = Return a () \<Longrightarrow> reachable a"
| copy: "reachable other \<Longrightarrow> Array_copy avail other = Return a () \<Longrightarrow> reachable a"
| move_new: "reachable other \<Longrightarrow> Array_move other = (a, other') \<Longrightarrow> reachable a"
| move_source: "reachable other \<Longrightarrow> Array_move other = (a, other') \<Longrightarrow> reachable other'"
| returns: "reachable a \<Longrightarrow> exec avail op a = Return r a' \<Longrightarrow> reachable a'"
| throws: "reachable a \<Longrightarrow> exec avail op a = Raise e a' \<Longrightarrow> reachable a'"
| returns2_this:
    "reachable a \<Longrightarrow> reachable other \<Longrightarrow> exec2 avail op' (a, other) = Return r (a', other') \<Longrightarrow>
     reachable a'"
| returns2_other:
    "reachable a \<Longrightarrow> reachable other \<Longrightarrow> exec2 avail op' (a, other) = Return r (a', other') \<Longrightarrow>
     reachable other'"
| throws2_this:
    "reachable a \<Longrightarrow> reachable other \<Longrightarrow> exec2 avail op' (a, other) = Raise e (a', other') \<Longrightarrow>
     reachable a'"
| throws2_other:
    "reachable a \<Longrightarrow> reachable other \<Longrightarrow> exec2 avail op' (a, other) = Raise e (a', other') \<Longrightarrow>
     reachable other'"

text \<open>
  The specification's side. The growth policy: the capacity an operation leaves when it
  needs \<open>required\<close> slots and has \<open>current\<close>.
\<close>

definition grows :: "nat \<Rightarrow> nat \<Rightarrow> nat" where
  "grows required current =
     (if required \<le> current then current
      else max required (if current = 0 then 8 else current + current div 2))"

text \<open>
  The index a forward and a backward search return: that of the first and of the last
  element satisfying the predicate, or the sentinel.
\<close>

definition first_match :: "('a \<Rightarrow> bool) \<Rightarrow> 'a list \<Rightarrow> size_t" where
  "first_match pred xs =
     (if \<exists>x \<in> set xs. pred x then word_of_nat (length (takeWhile (\<lambda>x. \<not> pred x) xs))
      else INDEX_NONE)"

definition last_match :: "('a \<Rightarrow> bool) \<Rightarrow> 'a list \<Rightarrow> size_t" where
  "last_match pred xs =
     (if \<exists>x \<in> set xs. pred x
      then word_of_nat (length xs - 1 - length (takeWhile (\<lambda>x. \<not> pred x) (rev xs)))
      else INDEX_NONE)"

text \<open>
  What the specification promises of an operation that returns: \<open>post op xs cap r xs' cap'\<close>
  relates the elements and the capacity before, the returned value, and the elements and
  the capacity after.
\<close>

fun post :: "'a op \<Rightarrow> 'a list \<Rightarrow> nat \<Rightarrow> 'a ret \<Rightarrow> 'a list \<Rightarrow> nat \<Rightarrow> bool" where
  "post (Op_subscript i) xs cap r xs' cap' \<longleftrightarrow>
     r = R_elem (xs ! unat i) \<and> xs' = xs \<and> cap' = cap"
| "post (Op_subscript_assign i v) xs cap r xs' cap' \<longleftrightarrow>
     r = R_unit \<and> xs' = xs[unat i := v] \<and> cap' = cap"
| "post (Op_Add v) xs cap r xs' cap' \<longleftrightarrow>
     r = R_unit \<and> xs' = xs @ [v] \<and> cap' = grows (length xs + 1) cap"
| "post (Op_Emplace v) xs cap r xs' cap' \<longleftrightarrow>
     r = R_elem v \<and> xs' = xs @ [v] \<and> cap' = grows (length xs + 1) cap"
| "post (Op_EmplaceAt i v) xs cap r xs' cap' \<longleftrightarrow>
     r = R_index i \<and> xs' = take (unat i) xs @ [v] @ drop (unat i) xs \<and>
     cap' = grows (length xs + 1) cap"
| "post (Op_Insert_value i v) xs cap r xs' cap' \<longleftrightarrow>
     r = R_index i \<and> xs' = take (unat i) xs @ [v] @ drop (unat i) xs \<and>
     cap' = grows (length xs + 1) cap"
| "post (Op_Insert_ilist i il) xs cap r xs' cap' \<longleftrightarrow>
     r = R_index i \<and> xs' = take (unat i) xs @ il @ drop (unat i) xs \<and>
     cap' = grows (length xs + length il) cap"
| "post (Op_Insert_range i ptr cnt) xs cap r xs' cap' \<longleftrightarrow>
     r = R_index i \<and> xs' = take (unat i) xs @ map the (take (unat cnt) ptr) @ drop (unat i) xs \<and>
     cap' = grows (length xs + unat cnt) cap"
| "post (Op_Append_ilist il) xs cap r xs' cap' \<longleftrightarrow>
     r = R_unit \<and> xs' = xs @ il \<and> cap' = grows (length xs + length il) cap"
| "post (Op_Append_range ptr cnt) xs cap r xs' cap' \<longleftrightarrow>
     r = R_unit \<and> xs' = xs @ map the (take (unat cnt) ptr) \<and>
     cap' = grows (length xs + unat cnt) cap"
| "post Op_Clear xs cap r xs' cap' \<longleftrightarrow> r = R_unit \<and> xs' = [] \<and> cap' = cap"
| "post (Op_Contains v) xs cap r xs' cap' \<longleftrightarrow>
     r = R_bool (v \<in> set xs) \<and> xs' = xs \<and> cap' = cap"
| "post (Op_ContainsIf pred) xs cap r xs' cap' \<longleftrightarrow>
     r = R_bool (\<exists>x \<in> set xs. pred x) \<and> xs' = xs \<and> cap' = cap"
| "post (Op_Find v) xs cap r xs' cap' \<longleftrightarrow>
     r = R_index (first_match (\<lambda>x. x = v) xs) \<and> xs' = xs \<and> cap' = cap"
| "post (Op_FindIf pred) xs cap r xs' cap' \<longleftrightarrow>
     r = R_index (first_match pred xs) \<and> xs' = xs \<and> cap' = cap"
| "post (Op_FindLast v) xs cap r xs' cap' \<longleftrightarrow>
     r = R_index (last_match (\<lambda>x. x = v) xs) \<and> xs' = xs \<and> cap' = cap"
| "post (Op_FindLastIf pred) xs cap r xs' cap' \<longleftrightarrow>
     r = R_index (last_match pred xs) \<and> xs' = xs \<and> cap' = cap"
| "post (Op_RemoveAt i) xs cap r xs' cap' \<longleftrightarrow>
     r = R_unit \<and> xs' = take (unat i) xs @ drop (Suc (unat i)) xs \<and> cap' = cap"
| "post (Op_Remove v) xs cap r xs' cap' \<longleftrightarrow>
     r = R_bool (v \<in> set xs) \<and> xs' = remove1 v xs \<and> cap' = cap"
| "post (Op_RemoveAll pred) xs cap r xs' cap' \<longleftrightarrow>
     r = R_index (word_of_nat (length (filter pred xs))) \<and>
     xs' = filter (\<lambda>x. \<not> pred x) xs \<and> cap' = cap"
| "post (Op_Reserve n) xs cap r xs' cap' \<longleftrightarrow>
     r = R_unit \<and> xs' = xs \<and> cap' = max (unat n) cap"
| "post (Op_Resize n v) xs cap r xs' cap' \<longleftrightarrow>
     r = R_unit \<and> xs' = take (unat n) xs @ replicate (unat n - length xs) v \<and>
     cap' = grows (unat n) cap"
| "post Op_Shrink xs cap r xs' cap' \<longleftrightarrow> r = R_unit \<and> xs' = xs \<and> cap' = length xs"
| "post (Op_Sort cmp) xs cap r xs' cap' \<longleftrightarrow>
     r = R_unit \<and> mset xs' = mset xs \<and> sorted_wrt (\<lambda>x y. \<not> cmp y x) xs' \<and> cap' = cap"
| "post (Op_assign_ilist il) xs cap r xs' cap' \<longleftrightarrow>
     r = R_unit \<and> xs' = il \<and> cap' = length il"

text \<open>
  The arguments an operation can get: an initializer list is an array object, so it has at
  most \<open>PTRDIFF_MAX\<close> elements.
\<close>

fun args_ok :: "'a op \<Rightarrow> bool" where
  "args_ok (Op_Insert_ilist i il) \<longleftrightarrow> length il \<le> PTRDIFF_MAX"
| "args_ok (Op_Append_ilist il) \<longleftrightarrow> length il \<le> PTRDIFF_MAX"
| "args_ok (Op_assign_ilist il) \<longleftrightarrow> length il \<le> PTRDIFF_MAX"
| "args_ok _ \<longleftrightarrow> True"

text \<open>
  What the specification promises of an operation with a second array:
  \<open>post2 op xs ys r xs' ys'\<close> relates the elements of this array and of the other before,
  the returned value, and the elements of both after.
\<close>

fun post2 :: "op2 \<Rightarrow> 'a list \<Rightarrow> 'a list \<Rightarrow> 'a ret \<Rightarrow> 'a list \<Rightarrow> 'a list \<Rightarrow> bool" where
  "post2 (Op_Insert_array i) xs ys r xs' ys' \<longleftrightarrow>
     r = R_index i \<and> xs' = take (unat i) xs @ ys @ drop (unat i) xs \<and> ys' = ys"
| "post2 (Op_Insert_move i) xs ys r xs' ys' \<longleftrightarrow>
     r = R_index i \<and> xs' = take (unat i) xs @ ys @ drop (unat i) xs \<and> ys' = []"
| "post2 Op_Append_array xs ys r xs' ys' \<longleftrightarrow> r = R_unit \<and> xs' = xs @ ys \<and> ys' = ys"
| "post2 Op_Append_move xs ys r xs' ys' \<longleftrightarrow> r = R_unit \<and> xs' = xs @ ys \<and> ys' = []"
| "post2 Op_assign_copy xs ys r xs' ys' \<longleftrightarrow> r = R_unit \<and> xs' = ys \<and> ys' = ys"
| "post2 Op_assign_move xs ys r xs' ys' \<longleftrightarrow> r = R_unit \<and> xs' = ys \<and> ys' = []"
| "post2 Op_Swap xs ys r xs' ys' \<longleftrightarrow> r = R_unit \<and> xs' = ys \<and> ys' = xs"

section \<open>Verification\<close>

subsection \<open>Ranges of a buffer\<close>

lemma read_n_mid:
  "buf = map Some A @ map Some M @ R \<Longrightarrow> p = int (length A) \<Longrightarrow> n = length M \<Longrightarrow> read_n buf p n = Some M"
  by (simp add: read_n_def in_bounds_def list_all_iff comp_def)

lemma write_n_mid:
  "buf = A @ M @ R \<Longrightarrow> p = int (length A) \<Longrightarrow> length vs = length M \<Longrightarrow> write_n buf p vs = Some (A @ map Some vs @ R)"
  by (simp add: write_n_def in_bounds_def)

lemma destroy_n_mid:
  "buf = A @ map Some M @ R \<Longrightarrow> p = int (length A) \<Longrightarrow> n = length M \<Longrightarrow>
   destroy_n buf p n = Some (A @ replicate (length M) None @ R)"
  by (simp add: destroy_n_def in_bounds_def list_all_iff)

lemma shift_parts:
  assumes fg: "F @ G = M @ L" and n: "length F = length L" "length J1 = length L" and ne: "L \<noteq> []"
  shows "(case uninitialized_move_n (map Some (A @ F @ G) @ J1 @ J2) (int (length (A @ F @ G)) - int (length L)) (length L)
                 (map Some (A @ F @ G) @ J1 @ J2) (int (length (A @ F @ G))) of
            None \<Rightarrow> None
          | Some b \<Rightarrow> move_backward b (int (length A)) (int (length (A @ F @ G)) - int (length L)) (int (length (A @ F @ G))))
         = Some (map Some (A @ F @ M @ L) @ J2)"
proof -
  let ?B = "map Some (A @ F @ G) @ J1 @ J2"
  have len: "length F + length G = length M + length L"
    using arg_cong [OF fg, of length] by simp
  then have lenG: "length G = length M" using n by simp
  have r1: "read_n ?B (int (length (A @ F @ G)) - int (length L)) (length L) = Some L"
    by (rule read_n_mid [where A = "A @ M" and R = "J1 @ J2"]) (simp_all add: fg len)
  have w1: "write_n ?B (int (length (A @ F @ G))) L = Some (map Some (A @ F @ G) @ map Some L @ J2)"
    by (rule write_n_mid [where M = J1]) (simp_all add: n)
  have r2: "read_n (map Some (A @ F @ G) @ map Some L @ J2) (int (length A))
              (nat (int (length (A @ F @ G)) - int (length L) - int (length A))) = Some M"
    by (rule read_n_mid [where A = A and R = "map Some L @ map Some L @ J2"]) (simp_all add: fg len)
  have w2: "write_n (map Some (A @ F @ G) @ map Some L @ J2)
              (int (length (A @ F @ G)) - (int (length (A @ F @ G)) - int (length L) - int (length A))) M
            = Some (map Some (A @ F) @ map Some M @ map Some L @ J2)"
    by (rule write_n_mid [where M = "map Some G"]) (simp_all add: n lenG)
  have ok: "int (length A) \<le> int (length (A @ F @ G)) - int (length L)"
    using len by simp
  show ?thesis
    unfolding uninitialized_move_n_def move_backward_def r1 w1 option.case r2 w2
    using ok ne by simp
qed

lemma shift_then_write_parts:
  assumes fg: "F @ G = M @ L" and n: "length F = length L" "length J1 = length L" "length vs = length L"
    and ne: "L \<noteq> []"
  shows "(case (case uninitialized_move_n (map Some (A @ F @ G) @ J1 @ J2) (int (length (A @ F @ G)) - int (length L)) (length L)
                 (map Some (A @ F @ G) @ J1 @ J2) (int (length (A @ F @ G))) of
            None \<Rightarrow> None
          | Some b \<Rightarrow> move_backward b (int (length A)) (int (length (A @ F @ G)) - int (length L)) (int (length (A @ F @ G))))
          of None \<Rightarrow> None | Some b \<Rightarrow> write_n b (int (length A)) vs)
         = Some (map Some (A @ vs @ F @ G) @ J2)"
proof -
  have "write_n (map Some (A @ F @ M @ L) @ J2) (int (length A)) vs
        = Some (map Some A @ map Some vs @ map Some (M @ L) @ J2)"
    by (rule write_n_mid [where M = "map Some F"]) (simp_all add: n)
  then show ?thesis
    unfolding shift_parts [OF fg n(1,2) ne] option.case by (simp add: fg)
qed

lemma andThen_simps [simp]:
  "andThen (Return r s) f = f r s"
  "andThen (Raise e s) f = Raise e s"
  "andThen Undefined f = Undefined"
  by (simp_all add: andThen_def)

lemma defined_simps [simp]:
  "defined None f = Undefined"
  "defined (Some x) f = f x"
  by (simp_all add: defined_def)

lemma andThen_Return_iff:
  "andThen m f = Return r s \<longleftrightarrow> (\<exists>r' s'. m = Return r' s' \<and> f r' s' = Return r s)"
  by (cases m) simp_all

lemma andThen_Raise_iff:
  "andThen m f = Raise e s \<longleftrightarrow> m = Raise e s \<or> (\<exists>r' s'. m = Return r' s' \<and> f r' s' = Raise e s)"
  by (cases m) simp_all

lemma andThen_Undefined_iff:
  "andThen m f = Undefined \<longleftrightarrow> m = Undefined \<or> (\<exists>r' s'. m = Return r' s' \<and> f r' s' = Undefined)"
  by (cases m) simp_all

lemma defined_Return_iff:
  "defined m f = Return r s \<longleftrightarrow> (\<exists>x. m = Some x \<and> f x = Return r s)"
  by (cases m) simp_all

lemma defined_Raise_iff:
  "defined m f = Raise e s \<longleftrightarrow> (\<exists>x. m = Some x \<and> f x = Raise e s)"
  by (cases m) simp_all

lemma well_formed_count_le: "well_formed a \<Longrightarrow> unat (mCount a) \<le> unat (mCapacity a)"
  by (simp add: well_formed_def word_le_nat_alt)

lemma well_formed_length_mem: "well_formed a \<Longrightarrow> length (mem a) = unat (mCapacity a)"
  by (simp add: well_formed_def)

lemma well_formed_cap_bound: "well_formed a \<Longrightarrow> unat (mCapacity a) \<le> PTRDIFF_MAX"
  by (simp add: well_formed_def)

lemma length_elems: "well_formed a \<Longrightarrow> length (elems a) = unat (mCount a)"
  by (simp add: elems_def well_formed_length_mem well_formed_count_le)

lemma map_Some_the: "list_all (\<lambda>s. s \<noteq> None) ys \<Longrightarrow> map Some (map the ys) = ys"
  by (induction ys) auto

lemma well_formed_mem: 
  assumes "well_formed a"
  shows "mem a = map Some (elems a) @ drop (unat (mCount a)) (mem a)"
proof -
  have "list_all (\<lambda>s. s \<noteq> None) (take (unat (mCount a)) (mem a))"
    using assms by (simp add: well_formed_def)
  then have "map Some (map the (take (unat (mCount a)) (mem a))) = take (unat (mCount a)) (mem a)"
    by (rule map_Some_the)
  then show ?thesis by (simp add: elems_def)
qed

lemma elems_mk:
  "length xs = unat c \<Longrightarrow> elems \<lparr>mData = Some (map Some xs @ R), mCount = c, mCapacity = n\<rparr> = xs"
  by (simp add: elems_def mem_def comp_def)

lemma well_formed_mk:
  "length xs = unat c \<Longrightarrow> length xs + length R = unat n \<Longrightarrow> unat n \<le> PTRDIFF_MAX \<Longrightarrow> n \<noteq> 0 \<Longrightarrow>
   well_formed \<lparr>mData = Some (map Some xs @ R), mCount = c, mCapacity = n\<rparr>"
  by (simp add: well_formed_def mem_def list_all_iff word_le_nat_alt)

lemma well_formed_null: "well_formed \<lparr>mData = None, mCount = 0, mCapacity = 0\<rparr>"
  by (simp add: well_formed_def mem_def PTRDIFF_MAX_def)

lemma elems_null: "elems \<lparr>mData = None, mCount = c, mCapacity = n\<rparr> = []"
  by (simp add: elems_def mem_def)

lemma elems_count_0: "mCount a = 0 \<Longrightarrow> elems a = []"
  by (simp add: elems_def)

lemma well_formed_mData_None: "well_formed a \<Longrightarrow> mData a = None \<Longrightarrow> mCapacity a = 0 \<and> mCount a = 0 \<and> elems a = []"
  by (auto simp: well_formed_def elems_def mem_def)

lemma well_formed_mData_Some: "well_formed a \<Longrightarrow> mData a = Some buf \<Longrightarrow> mem a = buf \<and> mCapacity a \<noteq> 0"
  by (auto simp: well_formed_def mem_def)

lemma cleanup_well_formed:
  assumes "well_formed a"
  shows "cleanup a = Return () \<lparr>mData = None, mCount = 0, mCapacity = 0\<rparr>"
proof (cases "mData a")
  case None
  with assms have "mCapacity a = 0" "mCount a = 0" by (simp_all add: well_formed_mData_None)
  with None have "a = \<lparr>mData = None, mCount = 0, mCapacity = 0\<rparr>" by (cases a) simp
  with None show ?thesis by (simp add: cleanup_def)
next
  case (Some buf)
  with assms have buf: "buf = map Some (elems a) @ drop (unat (mCount a)) (mem a)"
    using well_formed_mem [OF assms] by (simp add: well_formed_mData_Some)
  have "destroy_n buf 0 (unat (mCount a)) =
        Some ([] @ replicate (length (elems a)) None @ drop (unat (mCount a)) (mem a))"
    by (rule destroy_n_mid) (simp_all add: buf [symmetric] length_elems assms)
  with Some show ?thesis by (simp add: cleanup_def)
qed

lemma cleanup_not_Raise: "cleanup a \<noteq> Raise e s"
  by (simp add: cleanup_def defined_def split: option.splits)

lemma operator_new_Some:
  "operator_new avail n = Some buf \<longleftrightarrow> unat n \<le> PTRDIFF_MAX \<and> avail (unat n) \<and> buf = replicate (unat n) None"
  by (auto simp: operator_new_def)

lemma operator_new_None:
  "operator_new avail n = None \<longleftrightarrow> \<not> (unat n \<le> PTRDIFF_MAX \<and> avail (unat n))"
  by (auto simp: operator_new_def)

lemma reallocate_same: "reallocate avail a (mCapacity a) = Return () a"
  by (simp add: reallocate_def)

lemma reallocate_zero:
  "well_formed a \<Longrightarrow> mCapacity a \<noteq> 0 \<Longrightarrow>
   reallocate avail a 0 = Return () \<lparr>mData = None, mCount = 0, mCapacity = 0\<rparr>"
  by (simp add: reallocate_def cleanup_well_formed)

lemma reallocate_fail:
  "n \<noteq> mCapacity a \<Longrightarrow> n \<noteq> 0 \<Longrightarrow> \<not> (unat n \<le> PTRDIFF_MAX \<and> avail (unat n)) \<Longrightarrow>
   reallocate avail a n = Raise BadAlloc a"
  by (auto simp: reallocate_def operator_new_def)

lemma reallocate_new:
  assumes well_formed: "well_formed a" and le: "mCount a \<le> n"
    and n: "n \<noteq> mCapacity a" "n \<noteq> 0" and ok: "unat n \<le> PTRDIFF_MAX" "avail (unat n)"
  shows "reallocate avail a n =
           Return () \<lparr>mData = Some (map Some (elems a) @ replicate (unat n - unat (mCount a)) None),
                       mCount = mCount a, mCapacity = n\<rparr>"
proof -
  have new: "operator_new avail n = Some (replicate (unat n) None :: 'a buffer)"
    using ok by (simp add: operator_new_def)
  have cn: "unat (mCount a) \<le> unat n" using le by (simp add: word_le_nat_alt)
  have mn: "min (mCount a) n = mCount a" using le by (simp add: min_def)
  show ?thesis
  proof (cases "mData a")
    case None
    with well_formed have z: "mCount a = 0" "elems a = []" by (simp_all add: well_formed_mData_None)
    then show ?thesis using n new None
      by (simp add: reallocate_def Let_def)
  next
    case (Some buf)
    with well_formed have buf: "buf = map Some (elems a) @ drop (unat (mCount a)) (mem a)"
      using well_formed_mem [OF well_formed] by (simp add: well_formed_mData_Some)
    have r: "read_n buf 0 (unat (mCount a)) = Some (elems a)"
      by (rule read_n_mid [where A = "[]" and R = "drop (unat (mCount a)) (mem a)"])
         (simp_all add: buf length_elems well_formed)
    have w: "write_n (replicate (unat n) None) 0 (elems a)
             = Some ([] @ map Some (elems a) @ replicate (unat n - unat (mCount a)) None)"
      by (rule write_n_mid [where M = "replicate (unat (mCount a)) None"])
         (simp_all add: length_elems well_formed replicate_add [symmetric] cn)
    have d: "destroy_n buf 0 (unat (mCount a)) =
      Some ([] @ replicate (length (elems a)) None @ drop (unat (mCount a)) (mem a))"
      by (rule destroy_n_mid) (simp_all add: buf [symmetric] length_elems well_formed)
    show ?thesis using n new Some
      by (simp add: reallocate_def Let_def mn uninitialized_move_n_def r w d)
  qed
qed

lemma reallocate_well_formed:
  assumes well_formed: "well_formed a" and le: "mCount a \<le> n"
  shows "reallocate avail a n =
           (if n = mCapacity a \<or> n = 0 \<or> (unat n \<le> PTRDIFF_MAX \<and> avail (unat n))
            then Return () (grown a n) else Raise BadAlloc a)"
proof (cases "n = mCapacity a")
  case True
  then show ?thesis by (simp add: reallocate_same grown_def)
next
  case False
  note ne = this
  show ?thesis
  proof (cases "n = 0")
    case True
    with ne have "mCapacity a \<noteq> 0" by auto
    then show ?thesis using True ne well_formed by (simp add: reallocate_zero grown_def)
  next
    case False
    show ?thesis
    proof (cases "unat n \<le> PTRDIFF_MAX \<and> avail (unat n)")
      case True
      then show ?thesis using ne False reallocate_new [OF well_formed le ne False]
        by (simp add: grown_def)
    next
      case no: False
      then show ?thesis using reallocate_fail [of n a avail] ne False
        by simp
    qed
  qed
qed

lemma grown_props:
  assumes well_formed: "well_formed a" and le: "mCount a \<le> n" and b: "unat n \<le> PTRDIFF_MAX"
  shows "well_formed (grown a n)" "elems (grown a n) = elems a" "mCount (grown a n) = mCount a"
    "mCapacity (grown a n) = n"
proof -
  have cn: "unat (mCount a) \<le> unat n" using le by (simp add: word_le_nat_alt)
  show "well_formed (grown a n)"
    using well_formed cn b by (auto simp: grown_def well_formed_null intro!: well_formed_mk simp: length_elems)
  show "elems (grown a n) = elems a"
  proof (cases "n = 0")
    case True
    with le have "mCount a = 0" by simp
    then have "elems a = []" by (rule elems_count_0)
    then show ?thesis using True by (simp add: grown_def elems_null)
  next
    case False
    then show ?thesis using well_formed by (simp add: grown_def elems_mk length_elems)
  qed
  show "mCount (grown a n) = mCount a"
    using well_formed le by (auto simp: grown_def)
  show "mCapacity (grown a n) = n"
    by (auto simp: grown_def)
qed

lemma read_n_bounds: "read_n buf p n = Some vs \<Longrightarrow> 0 \<le> p \<and> nat p + n \<le> length buf \<and> length vs = n"
  by (auto simp: read_n_def in_bounds_def split: if_splits)

lemma write_n_bounds: "write_n buf p vs = Some b \<Longrightarrow> 0 \<le> p \<and> nat p + length vs \<le> length buf \<and> length b = length buf"
  by (auto simp: write_n_def in_bounds_def split: if_splits)

lemma shift_bounds:
  assumes sh: "(case uninitialized_move_n buf (c - n) k buf c of
                  None \<Rightarrow> None
                | Some b \<Rightarrow> move_backward b i (c - n) c) = Some b'"
  shows "0 \<le> c - n \<and> i \<le> c - n \<and> 0 \<le> c \<and> nat c + k \<le> length buf"
proof -
  from sh obtain b where m: "uninitialized_move_n buf (c - n) k buf c = Some b"
    and mb: "move_backward b i (c - n) c = Some b'"
    by (auto split: option.splits)
  from m obtain vs where r: "read_n buf (c - n) k = Some vs" and w: "write_n buf c vs = Some b"
    by (auto simp: uninitialized_move_n_def split: option.splits)
  from mb have "i \<le> c - n" by (auto simp: move_backward_def split: if_splits)
  with read_n_bounds [OF r] write_n_bounds [OF w] show ?thesis by auto
qed

lemma insert_shift_ok:
  assumes buf: "buf = map Some xs @ junk" and i: "i \<le> length xs" and pos: "0 < length vs"
    and room: "length vs \<le> length junk" and tail: "i < length xs \<longrightarrow> length vs \<le> length xs - i"
  shows "(case (if i < length xs then
                  (case uninitialized_move_n buf (int (length xs) - int (length vs)) (length vs) buf (int (length xs)) of
                     None \<Rightarrow> None
                   | Some b \<Rightarrow> move_backward b (int i) (int (length xs) - int (length vs)) (int (length xs)))
                else Some buf) of
            None \<Rightarrow> None
          | Some b \<Rightarrow> write_n b (int i) vs)
         = Some (map Some (take i xs @ vs @ drop i xs) @ drop (length vs) junk)"
proof (cases "i < length xs")
  case True
  let ?n = "length vs"
  let ?A = "take i xs" and ?F = "take ?n (drop i xs)" and ?G = "drop ?n (drop i xs)"
  let ?M = "take (length xs - i - ?n) (drop i xs)" and ?L = "drop (length xs - i - ?n) (drop i xs)"
  let ?J1 = "take ?n junk" and ?J2 = "drop ?n junk"
  have le: "?n \<le> length xs - i" using True tail by simp
  have fg: "?F @ ?G = ?M @ ?L" by (simp only: append_take_drop_id)
  have lF: "length ?F = length ?L" using le by simp
  have lJ: "length ?J1 = length ?L" using le room by simp
  have lv: "length vs = length ?L" using le by simp
  have ne: "?L \<noteq> []" using lv pos by auto
  have xs: "?A @ ?F @ ?G = xs" by (simp only: append_take_drop_id)
  have lenxs: "length (?A @ ?F @ ?G) = length xs" by (simp only: xs)
  have lA: "length ?A = i" using i by simp
  have lL: "length ?L = ?n" using lv by simp
  have b: "map Some (?A @ ?F @ ?G) @ ?J1 @ ?J2 = buf" unfolding xs by (simp add: buf)
  have res: "?A @ vs @ ?F @ ?G = take i xs @ vs @ drop i xs" by (simp only: append_take_drop_id)
  have "(case (case uninitialized_move_n buf (int (length xs) - int ?n) ?n buf (int (length xs)) of
                 None \<Rightarrow> None
               | Some b \<Rightarrow> move_backward b (int i) (int (length xs) - int ?n) (int (length xs)))
          of None \<Rightarrow> None | Some b \<Rightarrow> write_n b (int i) vs)
         = Some (map Some (take i xs @ vs @ drop i xs) @ ?J2)"
    using shift_then_write_parts [OF fg lF lJ lv ne, of ?A ?J2]
    unfolding b lenxs lA lL res .
  then show ?thesis using True by simp
next
  case False
  with i have e: "i = length xs" by simp
  have "write_n buf (int i) vs = Some (map Some xs @ map Some vs @ drop (length vs) junk)"
    by (rule write_n_mid [where M = "take (length vs) junk"]) (simp_all add: buf e room)
  then show ?thesis using e by simp
qed

lemma insert_shift_inv:
  assumes buf: "buf = map Some xs @ junk" and i: "i \<le> length xs" and pos: "0 < length vs"
    and sh: "(if i < length xs then
                  (case uninitialized_move_n buf (int (length xs) - int (length vs)) (length vs) buf (int (length xs)) of
                     None \<Rightarrow> None
                   | Some b \<Rightarrow> move_backward b (int i) (int (length xs) - int (length vs)) (int (length xs)))
                else Some buf) = Some b"
    and w: "write_n b (int i) vs = Some b'"
  shows "length vs \<le> length junk \<and> (i < length xs \<longrightarrow> length vs \<le> length xs - i) \<and>
         b' = map Some (take i xs @ vs @ drop i xs) @ drop (length vs) junk"
proof -
  have room: "length vs \<le> length junk" and tail: "i < length xs \<longrightarrow> length vs \<le> length xs - i"
  proof -
    show "i < length xs \<longrightarrow> length vs \<le> length xs - i"
    proof
      assume lt: "i < length xs"
      with sh have "(case uninitialized_move_n buf (int (length xs) - int (length vs)) (length vs) buf (int (length xs)) of
                     None \<Rightarrow> None
                   | Some b \<Rightarrow> move_backward b (int i) (int (length xs) - int (length vs)) (int (length xs))) = Some b"
        by simp
      from shift_bounds [OF this] show "length vs \<le> length xs - i" by auto
    qed
    show "length vs \<le> length junk"
    proof (cases "i < length xs")
      case True
      with sh have "(case uninitialized_move_n buf (int (length xs) - int (length vs)) (length vs) buf (int (length xs)) of
                     None \<Rightarrow> None
                   | Some b \<Rightarrow> move_backward b (int i) (int (length xs) - int (length vs)) (int (length xs))) = Some b"
        by simp
      from shift_bounds [OF this] show ?thesis by (simp add: buf)
    next
      case False
      with sh have "b = buf" by simp
      with write_n_bounds [OF w] False i show ?thesis by (simp add: buf)
    qed
  qed
  from insert_shift_ok [OF buf i pos room tail] sh w
  show ?thesis using room tail by simp
qed

lemma insert_shift_fails:
  assumes lt: "i < length xs" and big: "length xs - i < n"
  shows "(case uninitialized_move_n buf (int (length xs) - int n) n buf (int (length xs)) of
            None \<Rightarrow> None
          | Some b \<Rightarrow> move_backward b (int i) (int (length xs) - int n) (int (length xs))) = None"
proof (cases "uninitialized_move_n buf (int (length xs) - int n) n buf (int (length xs))")
  case None
  then show ?thesis by simp
next
  case (Some b)
  have "\<not> int i \<le> int (length xs) - int n" using lt big by simp
  then have "move_backward b (int i) (int (length xs) - int n) (int (length xs)) = None"
    by (simp add: move_backward_def)
  with Some show ?thesis by simp
qed

lemma well_formed_intro:
  "mData a = Some (map Some xs @ R) \<Longrightarrow> length xs = unat (mCount a) \<Longrightarrow>
   length xs + length R = unat (mCapacity a) \<Longrightarrow> unat (mCapacity a) \<le> PTRDIFF_MAX \<Longrightarrow>
   mCapacity a \<noteq> 0 \<Longrightarrow> well_formed a"
  by (auto simp: well_formed_def mem_def list_all_iff word_le_nat_alt)

lemma elems_intro:
  "mData a = Some (map Some xs @ R) \<Longrightarrow> length xs = unat (mCount a) \<Longrightarrow> elems a = xs"
  by (simp add: elems_def mem_def comp_def)

lemma unat_add_small:
  "unat (x :: size_t) \<le> PTRDIFF_MAX \<Longrightarrow> unat (y :: size_t) \<le> PTRDIFF_MAX \<Longrightarrow> unat (x + y) = unat x + unat y"
  by (simp add: PTRDIFF_MAX_def unat_add_lem [THEN iffD1])

lemma unat_add_bounded:
  "unat (x :: size_t) + unat (y :: size_t) \<le> PTRDIFF_MAX \<Longrightarrow> unat (x + y) = unat x + unat y"
  by (simp add: PTRDIFF_MAX_def unat_add_lem [THEN iffD1])

lemma well_formed_count_bound: "well_formed a \<Longrightarrow> unat (mCount a) \<le> PTRDIFF_MAX"
  using well_formed_count_le [of a] well_formed_cap_bound [of a] by simp

lemma count_succ: "well_formed a \<Longrightarrow> unat (mCount a + 1) = unat (mCount a) + 1"
  using unat_add_small [of "mCount a" 1] well_formed_count_bound [of a]
  by (simp add: PTRDIFF_MAX_def)

lemma checkRange_Return_iff:
  "checkRange a i b = Return r s \<longleftrightarrow> s = a \<and> \<not> (mCount a + (if b then 1 else 0) \<le> i)"
  by (auto simp: checkRange_def)

lemma checkRange_Raise_iff:
  "checkRange a i b = Raise e s \<longleftrightarrow> s = a \<and> e = IndexOutOfRange \<and> mCount a + (if b then 1 else 0) \<le> i"
  by (auto simp: checkRange_def)

lemma checkRange_defined: "checkRange a i b \<noteq> Undefined"
  by (simp add: checkRange_def)

lemma checkRange_end:
  "well_formed a \<Longrightarrow> mCount a + 1 \<le> i \<longleftrightarrow> unat (mCount a) < unat i"
  by (simp add: word_le_nat_alt count_succ Suc_le_eq)

lemma reallocate_Raise: "reallocate avail a n = Raise e s \<Longrightarrow> s = a \<and> e = BadAlloc"
  by (auto simp: reallocate_def cleanup_not_Raise defined_def Let_def split: if_splits option.splits)

lemma ensureCapacity_Raise: "ensureCapacity avail a m = Raise e s \<Longrightarrow> s = a \<and> e = BadAlloc"
  by (auto simp: ensureCapacity_def Let_def dest: reallocate_Raise split: if_splits)

lemma ensureCapacity_well_formed:
  assumes wfa: "well_formed a"
  shows "ensureCapacity avail a m =
     (if m \<le> mCapacity a then Return () a
      else if unat (max m (if mCapacity a = 0 then 8 else mCapacity a + drop_bit 1 (mCapacity a))) \<le> PTRDIFF_MAX \<and>
              avail (unat (max m (if mCapacity a = 0 then 8 else mCapacity a + drop_bit 1 (mCapacity a))))
      then Return () (grown a (max m (if mCapacity a = 0 then 8 else mCapacity a + drop_bit 1 (mCapacity a))))
      else Raise BadAlloc a)"
proof (cases "m \<le> mCapacity a")
  case True
  then have "\<not> mCapacity a < m" by (simp add: not_less)
  with True show ?thesis by (simp add: ensureCapacity_def)
next
  case False
  define n where "n = max m (if mCapacity a = 0 then 8 else mCapacity a + drop_bit 1 (mCapacity a))"
  have lt: "mCapacity a < n" using False by (simp add: n_def less_max_iff_disj not_le)
  then have ne: "n \<noteq> mCapacity a" "n \<noteq> 0" by (auto simp: word_gt_0 dest: less_le_trans)
  have "mCount a \<le> mCapacity a" using wfa by (simp add: well_formed_def)
  with lt have le: "mCount a \<le> n" by simp
  have gt: "mCapacity a < m" using False by (simp add: not_le)
  have "ensureCapacity avail a m = reallocate avail a n"
    using gt by (simp add: ensureCapacity_def Let_def n_def)
  also have "\<dots> = (if unat n \<le> PTRDIFF_MAX \<and> avail (unat n) then Return () (grown a n) else Raise BadAlloc a)"
    using reallocate_well_formed [OF wfa le, of avail] ne by simp
  finally show ?thesis using False unfolding n_def by simp
qed

lemma ensureCapacity_Return:
  assumes wfa: "well_formed a" and r: "ensureCapacity avail a m = Return r a'"
  shows "well_formed a'" "elems a' = elems a" "mCount a' = mCount a" "m \<le> mCapacity a'"
    "mCapacity a' = (if m \<le> mCapacity a then mCapacity a
                     else max m (if mCapacity a = 0 then 8 else mCapacity a + drop_bit 1 (mCapacity a)))"
proof -
  let ?n = "max m (if mCapacity a = 0 then 8 else mCapacity a + drop_bit 1 (mCapacity a))"
  have c: "(m \<le> mCapacity a \<and> a' = a) \<or> (\<not> m \<le> mCapacity a \<and> unat ?n \<le> PTRDIFF_MAX \<and> a' = grown a ?n)"
    using r unfolding ensureCapacity_well_formed [OF wfa] by (auto split: if_splits)
  have le: "mCount a \<le> ?n" if "\<not> m \<le> mCapacity a"
  proof -
    have "mCount a \<le> mCapacity a" using wfa by (simp add: well_formed_def)
    moreover have "mCapacity a < ?n" using that by (simp add: less_max_iff_disj not_le)
    ultimately show ?thesis by simp
  qed
  show "well_formed a'" using c wfa grown_props(1) [OF wfa le] by auto
  show "elems a' = elems a" using c grown_props(2) [OF wfa le] by auto
  show "mCount a' = mCount a" using c grown_props(3) [OF wfa le] by auto
  show "mCapacity a' = (if m \<le> mCapacity a then mCapacity a else ?n)"
    using c grown_props(4) [OF wfa le] by auto
  then show "m \<le> mCapacity a'" by (simp add: max_def)
qed

lemma store_Some: "mData a \<noteq> None \<Longrightarrow> store a b = a\<lparr>mData := Some b\<rparr>"
  by (auto simp: store_def)

lemma mem_nonempty: "mem a \<noteq> [] \<Longrightarrow> mData a \<noteq> None"
  by (cases "mData a") (auto simp: mem_def)

lemma insert_tail_Return:
  assumes wf2: "well_formed a"
    and i: "unat i \<le> unat (mCount a)"
    and vs: "length vs = n" "0 < n"
    and sh: "(if i < mCount a then
                (case uninitialized_move_n (mem a) (uint (mCount a) - int n) n (mem a) (uint (mCount a)) of
                   None \<Rightarrow> None
                 | Some b \<Rightarrow> move_backward b (uint i) (uint (mCount a) - int n) (uint (mCount a)))
              else Some (mem a)) = Some b"
    and w: "write_n b (uint i) vs = Some b'"
    and a': "a' = (store a b')\<lparr>mCount := mCount a + c\<rparr>" "unat c = n"
  shows "well_formed a'"
    and "elems a' = take (unat i) (elems a) @ vs @ drop (unat i) (elems a)"
    and "unat (mCount a') = unat (mCount a) + n"
    and "mCapacity a' = mCapacity a"
    and "i < mCount a \<longrightarrow> n \<le> unat (mCount a) - unat i"
proof -
  let ?xs = "elems a" and ?junk = "drop (unat (mCount a)) (mem a)"
  have buf: "mem a = map Some ?xs @ ?junk" by (rule well_formed_mem [OF wf2])
  have lx: "length ?xs = unat (mCount a)" by (rule length_elems [OF wf2])
  have i': "unat i \<le> length ?xs" using i lx by simp
  have pos: "0 < length vs" using vs by simp
  have lt: "i < mCount a \<longleftrightarrow> unat i < length ?xs" by (simp add: word_less_nat_alt lx)
  have sh': "(if unat i < length ?xs then
                (case uninitialized_move_n (mem a) (int (length ?xs) - int (length vs)) (length vs) (mem a) (int (length ?xs)) of
                   None \<Rightarrow> None
                 | Some b \<Rightarrow> move_backward b (int (unat i)) (int (length ?xs) - int (length vs)) (int (length ?xs)))
              else Some (mem a)) = Some b"
    using sh unfolding lt lx vs(1) by (simp only: uint_nat)
  have w': "write_n b (int (unat i)) vs = Some b'" using w by (simp only: uint_nat)
  from insert_shift_inv [OF buf i' pos sh' w']
  have room: "n \<le> length ?junk"
    and tail: "unat i < length ?xs \<longrightarrow> n \<le> length ?xs - unat i"
    and b': "b' = map Some (take (unat i) ?xs @ vs @ drop (unat i) ?xs) @ drop n ?junk"
    using vs by simp_all
  have lj: "length ?junk = unat (mCapacity a) - unat (mCount a)"
    using well_formed_length_mem [OF wf2] by simp
  have cle: "unat (mCount a) \<le> unat (mCapacity a)" by (rule well_formed_count_le [OF wf2])
  have sum: "unat (mCount a) + n \<le> unat (mCapacity a)" using room lj cle vs by simp
  have capb: "unat (mCapacity a) \<le> PTRDIFF_MAX" by (rule well_formed_cap_bound [OF wf2])
  have cnt: "unat (mCount a + c) = unat (mCount a) + n"
    using unat_add_bounded [of "mCount a" c] sum capb a'(2) by simp
  have "mem a \<noteq> []" using room vs(2) buf by auto
  then have nn: "mData a \<noteq> None" by (rule mem_nonempty)
  then have cap0: "mCapacity a \<noteq> 0" using wf2 by (auto simp: well_formed_def)
  have a'': "a' = a\<lparr>mData := Some b', mCount := mCount a + c\<rparr>"
    using a'(1) nn by (simp add: store_Some)
  have md: "mData a' = Some (map Some (take (unat i) ?xs @ vs @ drop (unat i) ?xs) @ drop n ?junk)"
    using a'' b' by simp
  have ln: "length (take (unat i) ?xs @ vs @ drop (unat i) ?xs) = unat (mCount a')"
    using a'' cnt i' lx vs by simp
  show "unat (mCount a') = unat (mCount a) + n" using a'' cnt by simp
  show "mCapacity a' = mCapacity a" using a'' by simp
  show "elems a' = take (unat i) ?xs @ vs @ drop (unat i) ?xs"
    by (rule elems_intro [OF md ln])
  show "well_formed a'"
  proof (rule well_formed_intro [OF md ln])
    show "length (take (unat i) ?xs @ vs @ drop (unat i) ?xs) + length (drop n ?junk) = unat (mCapacity a')"
      using a'' i' lx vs lj sum by simp
    show "unat (mCapacity a') \<le> PTRDIFF_MAX" using a'' capb by simp
    show "mCapacity a' \<noteq> 0" using a'' cap0 by simp
  qed
  show "i < mCount a \<longrightarrow> n \<le> unat (mCount a) - unat i"
    using tail lt lx by simp
qed

lemma EmplaceAt_Return:
  assumes wfa: "well_formed a" and r: "EmplaceAt avail a i v = Return r a'"
  shows "r = i" and "i \<le> mCount a" and "well_formed a'"
    and "elems a' = take (unat i) (elems a) @ [v] @ drop (unat i) (elems a)"
    and "unat (mCount a') = unat (mCount a) + 1"
    and "mCapacity a' = (if mCount a + 1 \<le> mCapacity a then mCapacity a
                         else max (mCount a + 1) (if mCapacity a = 0 then 8 else mCapacity a + drop_bit 1 (mCapacity a)))"
proof -
  from r obtain a2 b b' where
    chk: "\<not> mCount a + 1 \<le> i"
    and ens: "ensureCapacity avail a (mCount a + 1) = Return () a2"
    and sh: "(if i < mCount a2 then
                (case uninitialized_move_n (mem a2) (uint (mCount a2) - 1) 1 (mem a2) (uint (mCount a2)) of
                   None \<Rightarrow> None
                 | Some b \<Rightarrow> move_backward b (uint i) (uint (mCount a2) - 1) (uint (mCount a2)))
              else Some (mem a2)) = Some b"
    and w: "construct_at b (uint i) v = Some b'"
    and res: "r = i" "a' = (store a2 b')\<lparr>mCount := mCount a2 + 1\<rparr>"
    unfolding EmplaceAt_def andThen_Return_iff defined_Return_iff checkRange_Return_iff
    by auto
  note e = ensureCapacity_Return [OF wfa ens]
  have i: "unat i \<le> unat (mCount a)" using chk checkRange_end [OF wfa] by simp
  then have i2: "unat i \<le> unat (mCount a2)" using e(3) by simp
  have sh2: "(if i < mCount a2 then
                (case uninitialized_move_n (mem a2) (uint (mCount a2) - int 1) 1 (mem a2) (uint (mCount a2)) of
                   None \<Rightarrow> None
                 | Some b \<Rightarrow> move_backward b (uint i) (uint (mCount a2) - int 1) (uint (mCount a2)))
              else Some (mem a2)) = Some b"
    using sh by (simp only: of_nat_1)
  have w2: "write_n b (uint i) [v] = Some b'" using w by (simp add: construct_at_def)
  note t = insert_tail_Return [OF e(1) i2 _ _ sh2 w2 res(2), of]
  show "r = i" by (rule res)
  show "i \<le> mCount a" using i by (simp add: word_le_nat_alt)
  show "well_formed a'" by (rule t(1)) simp_all
  show "elems a' = take (unat i) (elems a) @ [v] @ drop (unat i) (elems a)"
    using t(2) e(2) by simp
  show "unat (mCount a') = unat (mCount a) + 1" using t(3) e(3) by simp
  show "mCapacity a' = (if mCount a + 1 \<le> mCapacity a then mCapacity a
                         else max (mCount a + 1) (if mCapacity a = 0 then 8 else mCapacity a + drop_bit 1 (mCapacity a)))"
    using t(4) e(5) by simp
qed

lemma EmplaceAt_Raise:
  assumes r: "EmplaceAt avail a i v = Raise e a'"
  shows "a' = a" and "e = IndexOutOfRange \<longleftrightarrow> mCount a + 1 \<le> i"
proof -
  from r have c: "(a' = a \<and> e = IndexOutOfRange \<and> mCount a + 1 \<le> i) \<or>
      (\<not> mCount a + 1 \<le> i \<and> ensureCapacity avail a (mCount a + 1) = Raise e a')"
    unfolding EmplaceAt_def andThen_Raise_iff defined_Raise_iff checkRange_Return_iff checkRange_Raise_iff
       andThen_Return_iff
    by auto
  then show "a' = a" using ensureCapacity_Raise by blast
  show "e = IndexOutOfRange \<longleftrightarrow> mCount a + 1 \<le> i"
    using c ensureCapacity_Raise [of avail a "mCount a + 1" e a'] by auto
qed

lemma read_n_zero: "read_n buf 0 0 = Some []"
  by (simp add: read_n_def in_bounds_def)

lemma insertImpl_Return:
  assumes wfa: "well_formed a" and r: "insertImpl avail a i ptr cnt = Return r a'"
  shows "r = i" and "i \<le> mCount a" and "well_formed a'"
    and "\<exists>vs. read_n ptr 0 (unat cnt) = Some vs \<and>
              elems a' = take (unat i) (elems a) @ vs @ drop (unat i) (elems a)"
    and "unat (mCount a') = unat (mCount a) + unat cnt"
    and "mCapacity a' = (if cnt = 0 \<or> mCount a + cnt \<le> mCapacity a then mCapacity a
                         else max (mCount a + cnt) (if mCapacity a = 0 then 8 else mCapacity a + drop_bit 1 (mCapacity a)))"
    and "i < mCount a \<longrightarrow> unat cnt \<le> unat (mCount a) - unat i"
proof -
  from r have chk: "\<not> mCount a + 1 \<le> i"
    and rest: "(if cnt = 0 then Return i a
       else
         andThen (ensureCapacity avail a (mCount a + cnt)) (\<lambda>_ a.
           defined
             (if i < mCount a then
                (case uninitialized_move_n (mem a) (uint (mCount a) - uint cnt) (unat cnt)
                        (mem a) (uint (mCount a)) of
                   None \<Rightarrow> None
                 | Some b \<Rightarrow>
                     move_backward b (uint i) (uint (mCount a) - uint cnt) (uint (mCount a)))
              else Some (mem a))
             (\<lambda>b. defined (uninitialized_copy_n ptr 0 (unat cnt) b (uint i))
               (\<lambda>b'. Return i ((store a b')\<lparr>mCount := mCount a + cnt\<rparr>))))) = Return r a'"
    unfolding insertImpl_def andThen_Return_iff checkRange_Return_iff by auto
  have i: "unat i \<le> unat (mCount a)" using chk checkRange_end [OF wfa] by simp
  show ile: "i \<le> mCount a" using i by (simp add: word_le_nat_alt)
  have all: "r = i \<and> well_formed a' \<and>
      (\<exists>vs. read_n ptr 0 (unat cnt) = Some vs \<and>
              elems a' = take (unat i) (elems a) @ vs @ drop (unat i) (elems a)) \<and>
      unat (mCount a') = unat (mCount a) + unat cnt \<and>
      mCapacity a' = (if cnt = 0 \<or> mCount a + cnt \<le> mCapacity a then mCapacity a
                         else max (mCount a + cnt) (if mCapacity a = 0 then 8 else mCapacity a + drop_bit 1 (mCapacity a))) \<and>
      (i < mCount a \<longrightarrow> unat cnt \<le> unat (mCount a) - unat i)"
  proof (cases "cnt = 0")
    case True
    with rest have "r = i" "a' = a" by simp_all
    then show ?thesis using True wfa by (simp add: read_n_zero)
  next
    case False
    then have pos: "0 < unat cnt" by (simp add: unat_gt_0)
    from rest False have rest': "andThen (ensureCapacity avail a (mCount a + cnt)) (\<lambda>_ a.
           defined
             (if i < mCount a then
                (case uninitialized_move_n (mem a) (uint (mCount a) - uint cnt) (unat cnt)
                        (mem a) (uint (mCount a)) of
                   None \<Rightarrow> None
                 | Some b \<Rightarrow>
                     move_backward b (uint i) (uint (mCount a) - uint cnt) (uint (mCount a)))
              else Some (mem a))
             (\<lambda>b. defined (uninitialized_copy_n ptr 0 (unat cnt) b (uint i))
               (\<lambda>b'. Return i ((store a b')\<lparr>mCount := mCount a + cnt\<rparr>)))) = Return r a'"
      by simp
    from rest' obtain a2 b b' where
      ens: "ensureCapacity avail a (mCount a + cnt) = Return () a2"
      and sh: "(if i < mCount a2 then
                (case uninitialized_move_n (mem a2) (uint (mCount a2) - uint cnt) (unat cnt)
                        (mem a2) (uint (mCount a2)) of
                   None \<Rightarrow> None
                 | Some b \<Rightarrow>
                     move_backward b (uint i) (uint (mCount a2) - uint cnt) (uint (mCount a2)))
              else Some (mem a2)) = Some b"
      and cp: "uninitialized_copy_n ptr 0 (unat cnt) b (uint i) = Some b'"
      and res: "r = i" "a' = (store a2 b')\<lparr>mCount := mCount a2 + cnt\<rparr>"
      unfolding andThen_Return_iff defined_Return_iff by auto
    note e = ensureCapacity_Return [OF wfa ens]
    from cp obtain vs where rd: "read_n ptr 0 (unat cnt) = Some vs" and w: "write_n b (uint i) vs = Some b'"
      by (auto simp: uninitialized_copy_n_def split: option.splits)
    have lv: "length vs = unat cnt" using read_n_bounds [OF rd] by simp
    have i2: "unat i \<le> unat (mCount a2)" using i e(3) by simp
    have sh2: "(if i < mCount a2 then
                (case uninitialized_move_n (mem a2) (uint (mCount a2) - int (unat cnt)) (unat cnt)
                        (mem a2) (uint (mCount a2)) of
                   None \<Rightarrow> None
                 | Some b \<Rightarrow>
                     move_backward b (uint i) (uint (mCount a2) - int (unat cnt)) (uint (mCount a2)))
              else Some (mem a2)) = Some b"
      using sh by (simp only: uint_nat)
    note t = insert_tail_Return [OF e(1) i2 lv pos sh2 w res(2) refl]
    show ?thesis using res(1) t e(2,3,5) rd False by simp
  qed
  then show "r = i" and "well_formed a'"
    and "\<exists>vs. read_n ptr 0 (unat cnt) = Some vs \<and>
              elems a' = take (unat i) (elems a) @ vs @ drop (unat i) (elems a)"
    and "unat (mCount a') = unat (mCount a) + unat cnt"
    and "mCapacity a' = (if cnt = 0 \<or> mCount a + cnt \<le> mCapacity a then mCapacity a
                         else max (mCount a + cnt) (if mCapacity a = 0 then 8 else mCapacity a + drop_bit 1 (mCapacity a)))"
    and "i < mCount a \<longrightarrow> unat cnt \<le> unat (mCount a) - unat i"
    by blast+
qed

lemma insertImpl_Raise:
  assumes r: "insertImpl avail a i ptr cnt = Raise e a'"
  shows "a' = a" and "e = IndexOutOfRange \<longleftrightarrow> mCount a + 1 \<le> i"
proof -
  from r have c: "(a' = a \<and> e = IndexOutOfRange \<and> mCount a + 1 \<le> i) \<or>
      (\<not> mCount a + 1 \<le> i \<and> cnt \<noteq> 0 \<and> ensureCapacity avail a (mCount a + cnt) = Raise e a')"
    unfolding insertImpl_def andThen_Raise_iff defined_Raise_iff checkRange_Return_iff checkRange_Raise_iff
       andThen_Return_iff
    by (auto split: if_splits simp: andThen_Raise_iff defined_Raise_iff)
  then show "a' = a" using ensureCapacity_Raise by blast
  show "e = IndexOutOfRange \<longleftrightarrow> mCount a + 1 \<le> i"
    using c ensureCapacity_Raise [of avail a "mCount a + cnt" e a'] by auto
qed

lemma insert_tail_ok:
  assumes wf2: "well_formed a"
    and i: "unat i \<le> unat (mCount a)"
    and vs: "length vs = n" "0 < n"
    and room: "unat (mCount a) + n \<le> unat (mCapacity a)"
    and tail: "i < mCount a \<longrightarrow> n \<le> unat (mCount a) - unat i"
  shows "\<exists>b b'. (if i < mCount a then
                (case uninitialized_move_n (mem a) (uint (mCount a) - int n) n (mem a) (uint (mCount a)) of
                   None \<Rightarrow> None
                 | Some b \<Rightarrow> move_backward b (uint i) (uint (mCount a) - int n) (uint (mCount a)))
              else Some (mem a)) = Some b \<and> write_n b (uint i) vs = Some b'"
proof -
  let ?xs = "elems a" and ?junk = "drop (unat (mCount a)) (mem a)"
  have buf: "mem a = map Some ?xs @ ?junk" by (rule well_formed_mem [OF wf2])
  have lx: "length ?xs = unat (mCount a)" by (rule length_elems [OF wf2])
  have i': "unat i \<le> length ?xs" using i lx by simp
  have pos: "0 < length vs" using vs by simp
  have lt: "i < mCount a \<longleftrightarrow> unat i < length ?xs" by (simp add: word_less_nat_alt lx)
  have lj: "length ?junk = unat (mCapacity a) - unat (mCount a)"
    using well_formed_length_mem [OF wf2] by simp
  have room': "length vs \<le> length ?junk" using room lj vs by simp
  have tail': "unat i < length ?xs \<longrightarrow> length vs \<le> length ?xs - unat i"
    using tail lt lx vs by simp
  have "(case (if unat i < length ?xs then
                  (case uninitialized_move_n (mem a) (int (length ?xs) - int (length vs)) (length vs) (mem a) (int (length ?xs)) of
                     None \<Rightarrow> None
                   | Some b \<Rightarrow> move_backward b (int (unat i)) (int (length ?xs) - int (length vs)) (int (length ?xs)))
                else Some (mem a)) of
            None \<Rightarrow> None
          | Some b \<Rightarrow> write_n b (int (unat i)) vs)
         = Some (map Some (take (unat i) ?xs @ vs @ drop (unat i) ?xs) @ drop (length vs) ?junk)"
    by (rule insert_shift_ok [OF buf i' pos room' tail'])
  then have "(case (if i < mCount a then
                (case uninitialized_move_n (mem a) (uint (mCount a) - int n) n (mem a) (uint (mCount a)) of
                   None \<Rightarrow> None
                 | Some b \<Rightarrow> move_backward b (uint i) (uint (mCount a) - int n) (uint (mCount a)))
              else Some (mem a)) of None \<Rightarrow> None | Some b \<Rightarrow> write_n b (uint i) vs)
         = Some (map Some (take (unat i) ?xs @ vs @ drop (unat i) ?xs) @ drop (length vs) ?junk)"
    unfolding lt lx vs(1) by (simp only: uint_nat)
  then show ?thesis by (auto split: option.splits)
qed

subsection \<open>Evaluating the model on concrete arrays\<close>

lemmas eval_defs =
  insertImpl_def checkRange_def ensureCapacity_def reallocate_def cleanup_def operator_new_def
  PTRDIFF_MAX_def uninitialized_move_n_def uninitialized_copy_n_def uninitialized_copy_def
  move_backward_def read_n_def write_n_def in_bounds_def destroy_n_def mem_def store_def Let_def
  Array_ilist_def Array_sized_def Insert_ilist_def Insert_move_def Clear_def

lemma Array_eta: "\<lparr>mData = mData a, mCount = mCount a, mCapacity = mCapacity a\<rparr> = (a :: 'a Array)"
  by (cases a) simp

lemma mem_store: "length b = length (mem a) \<Longrightarrow> mem (store a b) = b"
  by (cases "mData a") (auto simp: mem_def store_def)

lemma mem_mCount_update [simp]: "mem (a\<lparr>mCount := c\<rparr>) = mem a"
  by (simp add: mem_def)

lemma store_fields [simp]:
  "mCount (store a b) = mCount a" "mCapacity (store a b) = mCapacity a"
  "(mData (store a b) = None) = (mData a = None)"
  by (cases "mData a"; simp add: store_def)+

lemma well_formed_store:
  assumes "well_formed a" and "length b = length (mem a)"
    and "list_all (\<lambda>s. s \<noteq> None) (take (unat c) b)" and "c \<le> mCapacity a"
  shows "well_formed ((store a b)\<lparr>mCount := c\<rparr>)"
  using assms by (simp add: well_formed_def mem_store)

lemma elems_store:
  "length b = length (mem a) \<Longrightarrow> elems ((store a b)\<lparr>mCount := c\<rparr>) = map the (take (unat c) b)"
  by (simp add: elems_def mem_store)

lemma store_same: "store a (mem a) = a"
  by (cases "mData a") (auto simp: store_def mem_def)

lemma deref_live:
  "k < length xs \<Longrightarrow> deref (map Some xs @ junk) (int k) = Some (xs ! k)"
  by (simp add: deref_def nth_append)

lemma deref_elems:
  assumes "well_formed a" and "i < mCount a"
  shows "deref (mem a) (uint i) = Some (elems a ! unat i)"
proof -
  define junk where "junk = drop (unat (mCount a)) (mem a)"
  have buf: "mem a = map Some (elems a) @ junk"
    unfolding junk_def by (rule well_formed_mem [OF assms(1)])
  have "unat i < length (elems a)" using assms by (simp add: length_elems word_less_nat_alt)
  then have "deref (map Some (elems a) @ junk) (int (unat i)) = Some (elems a ! unat i)"
    by (rule deref_live)
  then show ?thesis unfolding buf by (simp only: uint_nat)
qed

lemma subscript_well_formed:
  assumes "well_formed a"
  shows "subscript a i = (if mCount a \<le> i then Raise IndexOutOfRange a else Return (elems a ! unat i) a)"
proof (cases "mCount a \<le> i")
  case True
  then show ?thesis by (simp add: subscript_def checkRange_def)
next
  case False
  then have "i < mCount a" by (simp add: not_le)
  from deref_elems [OF assms this] False show ?thesis
    by (simp add: subscript_def checkRange_def)
qed

lemma well_formed_mem_Nil:
  "well_formed a \<Longrightarrow> mem a = [] @ map Some (elems a) @ drop (unat (mCount a)) (mem a)"
  using well_formed_mem [of a] by (simp only: append_Nil)

lemma Clear_well_formed:
  assumes wfa: "well_formed a"
  shows "Clear a = Return () ((store a (replicate (unat (mCount a)) None @ drop (unat (mCount a)) (mem a)))\<lparr>mCount := 0\<rparr>)"
proof -
  have "destroy_n (mem a) 0 (unat (mCount a))
        = Some ([] @ replicate (length (elems a)) None @ drop (unat (mCount a)) (mem a))"
    by (rule destroy_n_mid [OF well_formed_mem_Nil [OF wfa]]) (simp_all add: length_elems wfa)
  then show ?thesis by (simp add: Clear_def length_elems wfa)
qed

lemma Clear_Return:
  assumes wfa: "well_formed a" and r: "Clear a = Return r a'"
  shows "well_formed a'" and "elems a' = []" and "mCount a' = 0" and "mCapacity a' = mCapacity a"
    and "(mData a' = None) = (mData a = None)"
    and "mem a' = replicate (unat (mCount a)) None @ drop (unat (mCount a)) (mem a)"
proof -
  let ?b = "replicate (unat (mCount a)) None @ drop (unat (mCount a)) (mem a)"
  have a': "a' = (store a ?b)\<lparr>mCount := 0\<rparr>" using r Clear_well_formed [OF wfa] by simp
  have len: "length ?b = length (mem a)"
    using well_formed_count_le [OF wfa] well_formed_length_mem [OF wfa] by simp
  show "well_formed a'" unfolding a' by (rule well_formed_store [OF wfa len]) simp_all
  show "elems a' = []" unfolding a' by (simp add: elems_def)
  show "mCount a' = 0" unfolding a' by simp
  show "mCapacity a' = mCapacity a" unfolding a' by simp
  show "(mData a' = None) = (mData a = None)" unfolding a' by simp
  show "mem a' = ?b" unfolding a' using mem_store [OF len] by simp
qed

lemma Clear_not_Raise: "Clear a \<noteq> Raise e s"
  by (simp add: Clear_def defined_def split: option.splits)

lemma Reserve_Return:
  assumes wfa: "well_formed a" and r: "Reserve avail a n = Return r a'"
  shows "well_formed a'" and "elems a' = elems a" and "mCount a' = mCount a"
    and "mCapacity a' = (if mCapacity a < n then n else mCapacity a)"
proof -
  have c: "(\<not> mCapacity a < n \<and> a' = a) \<or>
           (mCapacity a < n \<and> mCount a \<le> n \<and> unat n \<le> PTRDIFF_MAX \<and> a' = grown a n)"
  proof (cases "mCapacity a < n")
    case False
    then show ?thesis using r by (simp add: Reserve_def)
  next
    case True
    have "mCount a \<le> mCapacity a" using wfa by (simp add: well_formed_def)
    with True have le: "mCount a \<le> n" by simp
    have ne: "n \<noteq> mCapacity a" "n \<noteq> 0" using True by (auto simp: word_gt_0 dest: less_le_trans)
    from r True have "reallocate avail a n = Return r a'" by (simp add: Reserve_def)
    then show ?thesis using True le ne unfolding reallocate_well_formed [OF wfa le]
      by (auto split: if_splits)
  qed
  show "well_formed a'" using c wfa grown_props(1) [OF wfa] by auto
  show "elems a' = elems a" using c grown_props(2) [OF wfa] by auto
  show "mCount a' = mCount a" using c grown_props(3) [OF wfa] by auto
  show "mCapacity a' = (if mCapacity a < n then n else mCapacity a)"
    using c grown_props(4) [OF wfa] by auto
qed

lemma Reserve_Raise: "Reserve avail a n = Raise e s \<Longrightarrow> s = a \<and> e = BadAlloc"
  by (auto simp: Reserve_def dest: reallocate_Raise split: if_splits)

lemma Shrink_well_formed:
  assumes wfa: "well_formed a"
  shows "Shrink avail a =
     (if mCapacity a = mCount a \<or> mCount a = 0 \<or> avail (unat (mCount a))
      then Return () (grown a (mCount a)) else Raise BadAlloc a)"
proof -
  have le: "mCount a \<le> mCapacity a" using wfa by (simp add: well_formed_def)
  have b: "unat (mCount a) \<le> PTRDIFF_MAX" by (rule well_formed_count_bound [OF wfa])
  show ?thesis
  proof (cases "mCount a < mCapacity a")
    case True
    then have ne: "mCount a \<noteq> mCapacity a" by simp
    show ?thesis
      using True ne b reallocate_well_formed [OF wfa order_refl, of avail]
      by (auto simp: Shrink_def)
  next
    case False
    with le have e: "mCapacity a = mCount a" by simp
    then show ?thesis by (simp add: Shrink_def grown_def)
  qed
qed

lemma Shrink_Return:
  assumes wfa: "well_formed a" and r: "Shrink avail a = Return r a'"
  shows "well_formed a'" and "elems a' = elems a" and "mCount a' = mCount a"
    and "mCapacity a' = mCount a"
proof -
  have a': "a' = grown a (mCount a)"
    using r unfolding Shrink_well_formed [OF wfa] by (auto split: if_splits)
  note g = grown_props [OF wfa order_refl well_formed_count_bound [OF wfa]]
  show "well_formed a'" "elems a' = elems a" "mCount a' = mCount a" "mCapacity a' = mCount a"
    unfolding a' by (rule g)+
qed

lemma Shrink_Raise: "Shrink avail a = Raise e s \<Longrightarrow> s = a \<and> e = BadAlloc"
  by (auto simp: Shrink_def dest: reallocate_Raise split: if_splits)

lemma Shrink_tight: "mCapacity a = mCount a \<Longrightarrow> Shrink avail a = Return () a"
  by (simp add: Shrink_def)

lemma read_n_after:
  "buf = P @ map Some M @ R \<Longrightarrow> p = int (length P) \<Longrightarrow> n = length M \<Longrightarrow> read_n buf p n = Some M"
  by (simp add: read_n_def in_bounds_def list_all_iff comp_def)

lemma store_live:
  assumes wfa: "well_formed a" and len: "length ys + length R = length (mem a)"
    and c: "length ys = unat c"
  shows "well_formed ((store a (map Some ys @ R))\<lparr>mCount := c\<rparr>)"
    and "elems ((store a (map Some ys @ R))\<lparr>mCount := c\<rparr>) = ys"
proof -
  have l: "length (map Some ys @ R) = length (mem a)" using len by simp
  have "unat c \<le> unat (mCapacity a)" using len c well_formed_length_mem [OF wfa] by simp
  then have cle: "c \<le> mCapacity a" by (simp add: word_le_nat_alt)
  show "well_formed ((store a (map Some ys @ R))\<lparr>mCount := c\<rparr>)"
    by (rule well_formed_store [OF wfa l _ cle]) (simp add: c [symmetric] list_all_iff)
  show "elems ((store a (map Some ys @ R))\<lparr>mCount := c\<rparr>) = ys"
    by (simp add: elems_store [OF l] c [symmetric] comp_def)
qed

lemma count_pred:
  "i < mCount (a :: 'a Array) \<Longrightarrow> unat (mCount a - 1) = unat (mCount a) - 1"
proof -
  assume "i < mCount a"
  then have "1 \<le> mCount a" by (simp add: word_le_nat_alt word_less_nat_alt)
  then show ?thesis by (simp add: unat_sub)
qed

lemma checkRange_False:
  "checkRange a i False = (if mCount a \<le> i then Raise IndexOutOfRange a else Return () a)"
  by (simp add: checkRange_def)

lemma checkRange_True:
  "checkRange a i True = (if mCount a + 1 \<le> i then Raise IndexOutOfRange a else Return () a)"
  by (simp add: checkRange_def)

lemma RemoveAt_well_formed:
  assumes wfa: "well_formed a" and lt: "i < mCount a"
  shows "\<exists>a'. RemoveAt a i = Return () a' \<and> well_formed a' \<and>
           elems a' = take (unat i) (elems a) @ drop (Suc (unat i)) (elems a) \<and>
           mCount a' = mCount a - 1 \<and> mCapacity a' = mCapacity a \<and>
           (mData a' = None) = (mData a = None)"
proof -
  define xs where "xs = elems a"
  define k where "k = unat i"
  define junk where "junk = drop (unat (mCount a)) (mem a)"
  define A where "A = take k xs"
  define T where "T = drop (Suc k) xs"
  have lx: "length xs = unat (mCount a)" unfolding xs_def by (rule length_elems [OF wfa])
  have kl: "k < length xs" using lt by (simp add: k_def lx word_less_nat_alt)
  define x where "x = xs ! k"
  have xs: "xs = A @ [x] @ T" unfolding A_def T_def x_def using id_take_nth_drop [OF kl] by simp
  have lA: "length A = k" using kl by (simp add: A_def)
  have lT: "length T = length xs - Suc k" by (simp add: T_def)
  have buf0: "mem a = map Some xs @ junk"
    unfolding xs_def junk_def by (rule well_formed_mem [OF wfa])
  have buf: "mem a = map Some A @ map Some [x] @ (map Some T @ junk)"
    unfolding buf0 by (subst xs) simp
  have chk: "\<not> mCount a \<le> i" using lt by (simp add: not_le)
  have cp: "unat (mCount a - 1) = length xs - 1" using count_pred [OF lt] lx by simp
  define B where "B = map Some A @ [None] @ (map Some T @ junk)"
  have d0: "destroy_at (mem a) (uint i) = Some (map Some A @ replicate (length [x]) None @ (map Some T @ junk))"
    unfolding destroy_at_def uint_nat
    by (rule destroy_n_mid [OF buf]) (simp_all add: lA k_def)
  have d: "destroy_at (mem a) (uint i) = Some B"
    using d0 by (simp add: B_def)
  have Tne: "T \<noteq> [] \<longleftrightarrow> 0 < length T" by simp
  have cond: "i < mCount a - 1 \<longleftrightarrow> T \<noteq> []"
    unfolding Tne using kl lT by (simp add: word_less_nat_alt cp k_def [symmetric]) arith
  have lmem: "length (mem a) = length xs + length junk" unfolding buf0 by simp
  have "\<exists>R. (if i < mCount a - 1
            then std_move B (uint i + 1) (uint (mCount a)) (uint i)
            else Some B) = Some (map Some (A @ T) @ R)
           \<and> length R = Suc (length junk)"
  proof (cases "T = []")
    case True
    then show ?thesis using cond by (simp add: B_def)
  next
    case False
    have r: "read_n (map Some A @ [None] @ (map Some T @ junk)) (uint i + 1) (nat (uint (mCount a) - (uint i + 1))) = Some T"
      unfolding uint_nat
      by (rule read_n_after [where P = "map Some A @ [None]" and R = junk])
         (simp_all add: lA k_def [symmetric] lT lx [symmetric])
    have bl: "map Some T = map Some (butlast T) @ [Some (last T)]"
      using arg_cong [OF append_butlast_last_id [OF False], of "map Some"] by simp
    have w: "write_n (map Some A @ [None] @ (map Some T @ junk)) (uint i) T
             = Some (map Some A @ map Some T @ ([Some (last T)] @ junk))"
      unfolding uint_nat
      by (rule write_n_mid [where M = "[None] @ map Some (butlast T)"])
         (simp_all add: lA k_def bl False)
    have "std_move (map Some A @ [None] @ (map Some T @ junk)) (uint i + 1) (uint (mCount a)) (uint i)
          = Some (map Some (A @ T) @ ([Some (last T)] @ junk))"
      using lt unfolding std_move_def r w option.case
      by (simp add: word_less_def)
    then show ?thesis using False cond by (auto simp: B_def)
  qed
  then obtain R where sh: "(if i < mCount a - 1
            then std_move B (uint i + 1) (uint (mCount a)) (uint i)
            else Some B) = Some (map Some (A @ T) @ R)"
    and lR: "length R = Suc (length junk)" by blast
  have res: "RemoveAt a i = Return () ((store a (map Some (A @ T) @ R))\<lparr>mCount := mCount a - 1\<rparr>)"
    by (simp only: RemoveAt_def checkRange_False chk if_False andThen_simps d defined_simps sh)
  have len: "length (A @ T) + length R = length (mem a)"
    using lA lT lR lmem kl by simp
  have c: "length (A @ T) = unat (mCount a - 1)" using lA lT cp kl by simp
  note s = store_live [OF wfa len c]
  show ?thesis
    using res s unfolding A_def T_def k_def xs_def by simp
qed

lemma RemoveAt_Raise: "RemoveAt a i = Raise e s \<Longrightarrow> s = a \<and> e = IndexOutOfRange \<and> mCount a \<le> i"
  by (auto simp: RemoveAt_def andThen_Raise_iff defined_Raise_iff checkRange_Raise_iff checkRange_Return_iff)

lemma RemoveAt_out_of_range: "mCount a \<le> i \<Longrightarrow> RemoveAt a i = Raise IndexOutOfRange a"
  by (simp add: RemoveAt_def checkRange_def)

lemma well_formed_junk:
  assumes wfa: "well_formed a"
  shows "length (drop (unat (mCount a)) (mem a)) = unat (mCapacity a) - unat (mCount a)"
  using well_formed_length_mem [OF wfa] by simp

lemma update_mCount_same: "mCount r = c \<Longrightarrow> r\<lparr>mCount := c\<rparr> = (r :: 'a Array)"
  by (cases r) auto

lemma store_live_same:
  assumes wfa: "well_formed a" and len: "length ys + length R = length (mem a)"
    and c: "length ys = unat (mCount a)"
  shows "well_formed (store a (map Some ys @ R))"
    and "elems (store a (map Some ys @ R)) = ys"
  using store_live [OF wfa len c] by (simp_all add: update_mCount_same)

lemma subscript_assign_well_formed:
  assumes wfa: "well_formed a" and lt: "i < mCount a"
  shows "\<exists>a'. subscript_assign a i v = Return () a' \<and> well_formed a' \<and>
           elems a' = (elems a)[unat i := v] \<and>
           mCount a' = mCount a \<and> mCapacity a' = mCapacity a \<and>
           (mData a' = None) = (mData a = None)"
proof -
  define xs where "xs = elems a"
  define k where "k = unat i"
  define junk where "junk = drop (unat (mCount a)) (mem a)"
  define A where "A = take k xs"
  define T where "T = drop (Suc k) xs"
  define x where "x = xs ! k"
  have lx: "length xs = unat (mCount a)" unfolding xs_def by (rule length_elems [OF wfa])
  have kl: "k < length xs" using lt by (simp add: k_def lx word_less_nat_alt)
  have xs: "xs = A @ [x] @ T" unfolding A_def T_def x_def using id_take_nth_drop [OF kl] by simp
  have lA: "length A = k" using kl by (simp add: A_def)
  have lT: "length T = length xs - Suc k" by (simp add: T_def)
  have buf0: "mem a = map Some xs @ junk"
    unfolding xs_def junk_def by (rule well_formed_mem [OF wfa])
  have buf: "mem a = map Some A @ map Some [x] @ (map Some T @ junk)"
    unfolding buf0 by (subst xs) simp
  have chk: "\<not> mCount a \<le> i" using lt by (simp add: not_le)
  have dr: "deref (mem a) (uint i) = Some (elems a ! unat i)" by (rule deref_elems [OF wfa lt])
  have w: "write_n (mem a) (uint i) [v] = Some (map Some A @ map Some [v] @ (map Some T @ junk))"
    unfolding uint_nat by (rule write_n_mid [OF buf]) (simp_all add: lA k_def)
  have e: "map Some A @ map Some [v] @ (map Some T @ junk) = map Some (A @ [v] @ T) @ junk" by simp
  have res: "subscript_assign a i v = Return () (store a (map Some (A @ [v] @ T) @ junk))"
    by (simp only: subscript_assign_def checkRange_False chk if_False andThen_simps dr defined_simps w e)
  have upd: "A @ [v] @ T = xs[k := v]"
    unfolding A_def T_def using kl by (simp add: upd_conv_take_nth_drop)
  have len: "length (A @ [v] @ T) + length junk = length (mem a)"
    unfolding buf0 using lA lT kl by simp
  have c: "length (A @ [v] @ T) = unat (mCount a)" using lA lT kl lx by simp
  note s = store_live_same [OF wfa len c]
  show ?thesis
    using res s unfolding upd unfolding xs_def k_def by simp
qed

lemma subscript_assign_Raise:
  "subscript_assign a i v = Raise e s \<Longrightarrow> s = a \<and> e = IndexOutOfRange \<and> mCount a \<le> i"
  by (auto simp: subscript_assign_def andThen_Raise_iff defined_Raise_iff checkRange_Raise_iff checkRange_Return_iff)

lemma subscript_Raise:
  "subscript a i = Raise e s \<Longrightarrow> s = a \<and> e = IndexOutOfRange \<and> mCount a \<le> i"
  by (auto simp: subscript_def andThen_Raise_iff defined_Raise_iff checkRange_Raise_iff checkRange_Return_iff)

lemma length_insert_by [simp]: "length (insert_by cmp x ys) = Suc (length ys)"
  by (induction ys) auto

lemma length_foldr_insert_by [simp]: "length (foldr (insert_by cmp) xs []) = length xs"
  by (induction xs) auto

lemma Sort_not_Raise: "Sort a cmp \<noteq> Raise e s"
  by (simp add: Sort_def defined_def split: option.splits)

lemma ensureCapacity_defined: "well_formed a \<Longrightarrow> ensureCapacity avail a m \<noteq> Undefined"
  by (simp add: ensureCapacity_well_formed)

lemma ensureCapacity_cases:
  assumes wfa: "well_formed a"
  obtains (Raise) "ensureCapacity avail a m = Raise BadAlloc a"
  | (Return) a2 where "ensureCapacity avail a m = Return () a2"
proof (cases "ensureCapacity avail a m")
  case (Return u a2)
  then show ?thesis using that(2) by simp
next
  case (Raise e s)
  then show ?thesis using that(1) ensureCapacity_Raise [OF Raise] by simp
next
  case Undefined
  then show ?thesis using ensureCapacity_defined [OF wfa] by simp
qed

lemma Resize_well_formed:
  assumes wfa: "well_formed a"
  shows "Resize avail a n v = Raise BadAlloc a \<or>
         (\<exists>a'. Resize avail a n v = Return () a' \<and> well_formed a' \<and>
            elems a' = take (unat n) (elems a) @ replicate (unat n - unat (mCount a)) v \<and>
            mCount a' = n \<and>
            mCapacity a' = (if n \<le> mCapacity a then mCapacity a
                            else max n (if mCapacity a = 0 then 8 else mCapacity a + drop_bit 1 (mCapacity a))) \<and>
            (mCount a < n \<or> (mData a' = None) = (mData a = None)))"
proof -
  have cle: "mCount a \<le> mCapacity a" using wfa by (simp add: well_formed_def)
  consider (grow) "mCount a < n" | (cut) "n < mCount a" | (same) "n = mCount a"
    by (metis linorder_neqE_linordered_idom not_less_iff_gr_or_eq)
  then show ?thesis
  proof cases
    case same
    then have "Resize avail a n v = Return () a"
      by (simp add: Resize_def update_mCount_same)
    then show ?thesis using same wfa cle length_elems [OF wfa] by simp
  next
    case cut
    define xs where "xs = elems a"
    define junk where "junk = drop (unat (mCount a)) (mem a)"
    have lx: "length xs = unat (mCount a)" unfolding xs_def by (rule length_elems [OF wfa])
    have nl: "unat n < length xs" using cut by (simp add: lx word_less_nat_alt)
    have un: "unat (mCount a - n) = length xs - unat n"
      using cut by (simp add: unat_sub lx)
    have m1: "min (length xs) (unat n) = unat n" using nl by simp
    have buf: "mem a = map Some (take (unat n) xs) @ map Some (drop (unat n) xs) @ junk"
      using well_formed_mem [OF wfa] unfolding xs_def [symmetric] junk_def [symmetric]
      by (simp add: map_append [symmetric] del: map_append)
    have d: "destroy_n (mem a) (uint n) (unat (mCount a - n))
             = Some (map Some (take (unat n) xs) @ replicate (length (drop (unat n) xs)) None @ junk)"
      unfolding uint_nat by (rule destroy_n_mid [OF buf]) (simp_all add: un m1)
    have ng: "\<not> mCount a < n" using cut by simp
    have res: "Resize avail a n v
               = Return () ((store a (map Some (take (unat n) xs) @ replicate (length (drop (unat n) xs)) None @ junk))\<lparr>mCount := n\<rparr>)"
      by (simp only: Resize_def ng if_False cut if_True d defined_simps)
    have len: "length (take (unat n) xs) + length (replicate (length (drop (unat n) xs)) None @ junk) = length (mem a)"
      using nl by (subst buf) simp
    have c: "length (take (unat n) xs) = unat n" using nl by simp
    note s = store_live [OF wfa len c]
    have le: "n \<le> mCapacity a" using cut cle by simp
    show ?thesis using res s nl le lx unfolding xs_def by simp
  next
    case grow
    show ?thesis
    proof (rule ensureCapacity_cases [OF wfa, of avail n])
      assume "ensureCapacity avail a n = Raise BadAlloc a"
      then show ?thesis using grow by (simp add: Resize_def)
    next
      fix a2 assume Return: "ensureCapacity avail a n = Return () a2"
      note e = ensureCapacity_Return [OF wfa Return]
      define xs where "xs = elems a2"
      define junk where "junk = drop (unat (mCount a2)) (mem a2)"
      define d where "d = unat n - unat (mCount a)"
      have lx: "length xs = unat (mCount a)" unfolding xs_def using length_elems [OF e(1)] e(3) by simp
      have un: "unat (n - mCount a2) = d"
        using grow e(3) by (simp add: unat_sub d_def)
      have nle: "unat (mCount a) \<le> unat n" using grow by (simp add: word_less_nat_alt)
      have lj: "length junk = unat (mCapacity a2) - unat (mCount a)"
        unfolding junk_def using well_formed_junk [OF e(1)] e(3) by simp
      have ncap: "unat n \<le> unat (mCapacity a2)" using e(4) by (simp add: word_le_nat_alt)
      have dj: "d \<le> length junk" using lj ncap nle by (simp add: d_def)
      have m2: "min (length junk) d = d" using dj by simp
      have buf: "mem a2 = map Some xs @ take d junk @ drop d junk"
        using well_formed_mem [OF e(1)] unfolding xs_def [symmetric] junk_def [symmetric] by simp
      have w: "uninitialized_fill_n (mem a2) (uint (mCount a2)) (unat (n - mCount a2)) v
               = Some (map Some xs @ map Some (replicate d v) @ drop d junk)"
        unfolding uninitialized_fill_n_def uint_nat un
        by (rule write_n_mid [OF buf]) (simp_all add: lx e(3) m2)
      have e2: "map Some xs @ map Some (replicate d v) @ drop d junk = map Some (xs @ replicate d v) @ drop d junk"
        by simp
      have res: "Resize avail a n v = Return () ((store a2 (map Some (xs @ replicate d v) @ drop d junk))\<lparr>mCount := n\<rparr>)"
        using grow w by (simp only: Resize_def if_True Return andThen_simps defined_simps e2)
      have len: "length (xs @ replicate d v) + length (drop d junk) = length (mem a2)"
        using dj by (subst buf) simp
      have c: "length (xs @ replicate d v) = unat n" using lx nle by (simp add: d_def)
      note s = store_live [OF e(1) len c]
      have tk: "take (unat n) (elems a) = xs" using e(2) lx nle by (simp add: xs_def)
      show ?thesis using res s e(5) grow tk unfolding d_def by simp
    qed
  qed
qed

lemma find_if_n_live:
  "k + n \<le> length xs \<Longrightarrow>
   find_if_n pred (map Some xs @ junk) (int k) n
     = Some (int (k + length (takeWhile (\<lambda>x. \<not> pred x) (take n (drop k xs)))))"
proof (induction n arbitrary: k)
  case 0
  then show ?case by simp
next
  case (Suc n)
  then have kl: "k < length xs" by simp
  have d: "deref (map Some xs @ junk) (int k) = Some (xs ! k)" by (rule deref_live [OF kl])
  have t: "take (Suc n) (drop k xs) = xs ! k # take n (drop (Suc k) xs)"
    using kl by (simp add: Cons_nth_drop_Suc [symmetric])
  have ih: "find_if_n pred (map Some xs @ junk) (int (Suc k)) n
     = Some (int (Suc k + length (takeWhile (\<lambda>x. \<not> pred x) (take n (drop (Suc k) xs)))))"
    using Suc.prems by (intro Suc.IH) simp
  have sk: "int k + 1 = int (Suc k)" by simp
  show ?case
    unfolding find_if_n.simps d option.case t sk ih by simp
qed

lemma Find_well_formed:
  assumes wfa: "well_formed a"
  shows "FindIf a pred =
     Return (if length (takeWhile (\<lambda>x. \<not> pred x) (elems a)) \<noteq> length (elems a)
             then word_of_nat (length (takeWhile (\<lambda>x. \<not> pred x) (elems a))) else INDEX_NONE) a"
proof -
  define xs where "xs = elems a"
  define junk where "junk = drop (unat (mCount a)) (mem a)"
  have lx: "length xs = unat (mCount a)" unfolding xs_def by (rule length_elems [OF wfa])
  have buf: "mem a = map Some xs @ junk"
    unfolding xs_def junk_def by (rule well_formed_mem [OF wfa])
  have f: "find_if_n pred (map Some xs @ junk) (int 0) (length xs)
     = Some (int (0 + length (takeWhile (\<lambda>x. \<not> pred x) (take (length xs) (drop 0 xs)))))"
    by (rule find_if_n_live) simp
  have s: "std_find_if (mem a) 0 (uint (mCount a)) pred
           = Some (int (length (takeWhile (\<lambda>x. \<not> pred x) xs)))"
    unfolding std_find_if_def uint_nat buf lx [symmetric] using f by simp
  have e: "int (length (takeWhile (\<lambda>x. \<not> pred x) xs)) \<noteq> uint (mCount a)
           \<longleftrightarrow> length (takeWhile (\<lambda>x. \<not> pred x) xs) \<noteq> length xs"
    unfolding uint_nat lx by (simp only: of_nat_eq_iff)
  show ?thesis
    unfolding FindIf_def s defined_simps e xs_def [symmetric] by simp
qed

lemma Find_FindIf: "Find a v = FindIf a (\<lambda>x. x = v)"
  by (simp add: Find_def FindIf_def std_find_def)

lemma takeWhile_first:
  assumes "\<exists>x \<in> set xs. pred x"
  shows "length (takeWhile (\<lambda>x. \<not> pred x) xs) < length xs"
    and "pred (xs ! length (takeWhile (\<lambda>x. \<not> pred x) xs))"
    and "\<forall>m < length (takeWhile (\<lambda>x. \<not> pred x) xs). \<not> pred (xs ! m)"
proof -
  show l: "length (takeWhile (\<lambda>x. \<not> pred x) xs) < length xs"
  proof (rule ccontr)
    assume "\<not> length (takeWhile (\<lambda>x. \<not> pred x) xs) < length xs"
    then have "length (takeWhile (\<lambda>x. \<not> pred x) xs) = length xs"
      using length_takeWhile_le [of "\<lambda>x. \<not> pred x" xs] by simp
    then have "takeWhile (\<lambda>x. \<not> pred x) xs = xs"
      using takeWhile_eq_take [of "\<lambda>x. \<not> pred x" xs] by simp
    then have "\<forall>x \<in> set xs. \<not> pred x" by (simp only: takeWhile_eq_all_conv)
    with assms show False by blast
  qed
  show "pred (xs ! length (takeWhile (\<lambda>x. \<not> pred x) xs))"
    using nth_length_takeWhile [OF l] by simp
  show "\<forall>m < length (takeWhile (\<lambda>x. \<not> pred x) xs). \<not> pred (xs ! m)"
    using takeWhile_nth nth_mem set_takeWhileD by metis
qed

lemma takeWhile_none:
  "\<forall>x \<in> set xs. \<not> pred x \<Longrightarrow> length (takeWhile (\<lambda>x. \<not> pred x) xs) = length xs"
  by (simp add: takeWhile_eq_all_conv [THEN iffD2])

lemma index_not_sentinel:
  "j \<le> PTRDIFF_MAX \<Longrightarrow> (word_of_nat j :: size_t) \<noteq> INDEX_NONE \<and> unat (word_of_nat j :: size_t) = j"
proof -
  assume j: "j \<le> PTRDIFF_MAX"
  then have u: "unat (word_of_nat j :: size_t) = j"
    by (simp add: PTRDIFF_MAX_def unat_of_nat)
  have "unat INDEX_NONE = 2 ^ 64 - 1"
    by (simp add: INDEX_NONE_def unsigned_minus_1_eq_mask mask_eq_exp_minus_1)
  with u j show ?thesis by (auto simp: PTRDIFF_MAX_def)
qed

lemma FindLastIf_loop_live:
  assumes wfa: "well_formed a"
  shows "n \<le> length (elems a) \<Longrightarrow>
     (\<exists>j<n. FindLastIf_loop a pred n = Return (word_of_nat j) a \<and> pred (elems a ! j) \<and>
            (\<forall>m. j < m \<and> m < n \<longrightarrow> \<not> pred (elems a ! m))) \<or>
     (FindLastIf_loop a pred n = Return INDEX_NONE a \<and> (\<forall>m<n. \<not> pred (elems a ! m)))"
proof (induction n)
  case 0
  then show ?case by simp
next
  case (Suc n)
  define junk where "junk = drop (unat (mCount a)) (mem a)"
  have buf: "mem a = map Some (elems a) @ junk"
    unfolding junk_def by (rule well_formed_mem [OF wfa])
  have nl: "n < length (elems a)" using Suc.prems by simp
  have d: "deref (mem a) (int n) = Some (elems a ! n)"
    unfolding buf by (rule deref_live [OF nl])
  show ?case
  proof (cases "pred (elems a ! n)")
    case True
    then have "FindLastIf_loop a pred (Suc n) = Return (word_of_nat n) a"
      by (simp add: d)
    with True show ?thesis by auto
  next
    case False
    then have eq: "FindLastIf_loop a pred (Suc n) = FindLastIf_loop a pred n"
      by (simp add: d)
    from Suc.IH nl have ih: "(\<exists>j<n. FindLastIf_loop a pred n = Return (word_of_nat j) a \<and> pred (elems a ! j) \<and>
            (\<forall>m. j < m \<and> m < n \<longrightarrow> \<not> pred (elems a ! m))) \<or>
     (FindLastIf_loop a pred n = Return INDEX_NONE a \<and> (\<forall>m<n. \<not> pred (elems a ! m)))"
      by simp
    then show ?thesis
    proof
      assume "\<exists>j<n. FindLastIf_loop a pred n = Return (word_of_nat j) a \<and> pred (elems a ! j) \<and>
            (\<forall>m. j < m \<and> m < n \<longrightarrow> \<not> pred (elems a ! m))"
      then obtain j where j: "j < n" "FindLastIf_loop a pred n = Return (word_of_nat j) a"
        "pred (elems a ! j)" "\<forall>m. j < m \<and> m < n \<longrightarrow> \<not> pred (elems a ! m)" by blast
      have "\<forall>m. j < m \<and> m < Suc n \<longrightarrow> \<not> pred (elems a ! m)"
        using j(4) False by (auto simp: less_Suc_eq)
      then show ?thesis using j eq by (intro disjI1 exI [of _ j]) simp
    next
      assume n: "FindLastIf_loop a pred n = Return INDEX_NONE a \<and> (\<forall>m<n. \<not> pred (elems a ! m))"
      then have "\<forall>m<Suc n. \<not> pred (elems a ! m)" using False by (auto simp: less_Suc_eq)
      then show ?thesis using n eq by simp
    qed
  qed
qed

lemma filter_same_length: "length (filter P xs) = length xs \<Longrightarrow> filter P xs = xs"
  by (metis filter_True length_filter_less linorder_neq_iff)

lemma RemoveAll_well_formed:
  assumes wfa: "well_formed a"
  shows "\<exists>r a'. RemoveAll a pred = Return r a' \<and> well_formed a' \<and>
           elems a' = filter (\<lambda>x. \<not> pred x) (elems a) \<and>
           unat r = length (elems a) - length (filter (\<lambda>x. \<not> pred x) (elems a)) \<and>
           mCapacity a' = mCapacity a \<and> (mData a' = None) = (mData a = None)"
proof -
  define xs where "xs = elems a"
  define junk where "junk = drop (unat (mCount a)) (mem a)"
  define kept where "kept = filter (\<lambda>x. \<not> pred x) xs"
  define k where "k = length kept"
  have lx: "length xs = unat (mCount a)" unfolding xs_def by (rule length_elems [OF wfa])
  have kl: "k \<le> length xs" unfolding k_def kept_def by simp
  have buf: "mem a = [] @ map Some xs @ junk"
    unfolding xs_def junk_def by (rule well_formed_mem_Nil [OF wfa])
  have r: "read_n (mem a) 0 (nat (uint (mCount a) - 0)) = Some xs"
    unfolding uint_nat by (rule read_n_after [OF buf]) (simp_all add: lx)
  have m1: "min (length xs) k = k" using kl by simp
  have buf2: "mem a = [] @ map Some (take k xs) @ (map Some (drop k xs) @ junk)"
    using buf by (simp add: map_append [symmetric] del: map_append)
  have w: "write_n (mem a) 0 kept = Some ([] @ map Some kept @ (map Some (drop k xs) @ junk))"
    by (rule write_n_mid [OF buf2]) (simp_all add: m1 [unfolded k_def] k_def)
  define B where "B = map Some kept @ (map Some (drop k xs) @ junk)"
  have rm: "std_remove_if (mem a) 0 (uint (mCount a)) pred = Some (B, int k)"
    unfolding std_remove_if_def r option.case kept_def [symmetric] w B_def k_def by simp
  have lmem: "length (mem a) = length xs + length junk" by (subst buf) simp
  show ?thesis
  proof (cases "k = length xs")
    case True
    then have kx: "kept = xs" unfolding k_def kept_def by (rule filter_same_length)
    then have "B = mem a" using True by (subst buf) (simp add: B_def)
    then have "RemoveAll a pred = Return 0 a"
      unfolding RemoveAll_def rm defined_simps using True
      by (simp add: uint_nat lx [symmetric] store_same del: of_nat_unat)
    then show ?thesis using wfa True kx unfolding k_def kept_def xs_def by simp
  next
    case False
    with kl have klt: "k < length xs" by simp
    have ne: "int k \<noteq> uint (mCount a)" unfolding uint_nat lx [symmetric] using False by (simp only: of_nat_eq_iff) simp
    have rc: "uint (mCount a) - int k = int (length xs - k)"
      unfolding uint_nat lx [symmetric] using kl by simp
    define removed :: size_t where "removed = word_of_nat (length xs - k)"
    have wi: "(word_of_int (int (length xs - k)) :: size_t) = removed"
      unfolding removed_def by simp
    have cb: "length xs \<le> PTRDIFF_MAX" using well_formed_count_bound [OF wfa] lx by simp
    have ur: "unat removed = length xs - k"
      unfolding removed_def using cb by (simp add: unat_of_nat PTRDIFF_MAX_def)
    have rle: "removed \<le> mCount a" using ur lx by (simp add: word_le_nat_alt)
    have uc: "unat (mCount a - removed) = k"
      using unat_sub [OF rle] ur lx kl by simp
    have Bsplit: "B = map Some kept @ map Some (drop k xs) @ junk" by (simp add: B_def)
    have nd: "nat (int (length xs) - int k) = length xs - k" by arith
    have d: "destroy B (int k) (uint (mCount a))
             = Some (map Some kept @ replicate (length (drop k xs)) None @ junk)"
      unfolding destroy_def uint_nat lx [symmetric] nd
      using kl destroy_n_mid [OF Bsplit, of "int k" "length xs - k"]
      by (simp add: k_def)
    have res: "RemoveAll a pred = Return removed
        ((store a (map Some kept @ replicate (length (drop k xs)) None @ junk))\<lparr>mCount := mCount a - removed\<rparr>)"
      unfolding RemoveAll_def rm defined_simps
      by (simp only: prod.case ne if_False rc wi Let_def d defined_simps)
    have len: "length kept + length (replicate (length (drop k xs)) None @ junk) = length (mem a)"
      using kl lmem by (simp add: k_def)
    have c: "length kept = unat (mCount a - removed)" using uc by (simp add: k_def)
    note s = store_live [OF wfa len c]
    show ?thesis using res s ur unfolding k_def kept_def xs_def by simp
  qed
qed

lemma RemoveAll_not_Raise: "RemoveAll a pred \<noteq> Raise e s"
  by (auto simp: RemoveAll_def defined_def Let_def split: option.splits prod.splits if_splits)

lemma remove1_first:
  "v \<in> set xs \<Longrightarrow>
   take (length (takeWhile (\<lambda>x. x \<noteq> v) xs)) xs @ drop (Suc (length (takeWhile (\<lambda>x. x \<noteq> v) xs))) xs
     = remove1 v xs"
  by (induction xs) auto

lemma read_n_elems:
  assumes wfa: "well_formed a"
  shows "read_n (mem a) 0 (unat (mCount a)) = Some (elems a)"
  by (rule read_n_after [OF well_formed_mem_Nil [OF wfa]]) (simp_all add: length_elems [OF wfa])

lemma Find_Return:
  assumes wfa: "well_formed a"
  shows "v \<in> set (elems a) \<Longrightarrow>
           \<exists>j. Find a v = Return (word_of_nat j) a \<and> j < length (elems a) \<and> elems a ! j = v \<and>
               (\<forall>m<j. elems a ! m \<noteq> v) \<and> (word_of_nat j :: size_t) \<noteq> INDEX_NONE \<and>
               unat (word_of_nat j :: size_t) = j \<and> j = length (takeWhile (\<lambda>x. x \<noteq> v) (elems a))"
    and "v \<notin> set (elems a) \<Longrightarrow> Find a v = Return INDEX_NONE a"
proof -
  let ?j = "length (takeWhile (\<lambda>x. \<not> x = v) (elems a))"
  note f = Find_well_formed [OF wfa, of "\<lambda>x. x = v", folded Find_FindIf]
  {
    assume "v \<in> set (elems a)"
    then have ex: "\<exists>x \<in> set (elems a). x = v" by simp
    note t = takeWhile_first [OF ex]
    have "?j \<le> PTRDIFF_MAX"
      using t(1) length_elems [OF wfa] well_formed_count_bound [OF wfa] by simp
    note n = index_not_sentinel [OF this]
    have "Find a v = Return (word_of_nat ?j) a" using f t(1) by simp
    then show "\<exists>j. Find a v = Return (word_of_nat j) a \<and> j < length (elems a) \<and> elems a ! j = v \<and>
               (\<forall>m<j. elems a ! m \<noteq> v) \<and> (word_of_nat j :: size_t) \<noteq> INDEX_NONE \<and>
               unat (word_of_nat j :: size_t) = j \<and> j = length (takeWhile (\<lambda>x. x \<noteq> v) (elems a))"
      using t n by (intro exI [of _ ?j]) simp
  }
  {
    assume "v \<notin> set (elems a)"
    then have "\<forall>x \<in> set (elems a). \<not> x = v" by auto
    then have "?j = length (elems a)" by (rule takeWhile_none)
    then show "Find a v = Return INDEX_NONE a" using f by simp
  }
qed

lemma Remove_well_formed:
  assumes wfa: "well_formed a"
  shows "\<exists>a'. Remove a v = Return (v \<in> set (elems a)) a' \<and> well_formed a' \<and>
           elems a' = remove1 v (elems a) \<and> mCapacity a' = mCapacity a \<and>
           (mData a' = None) = (mData a = None)"
proof (cases "v \<in> set (elems a)")
  case False
  then have "Remove a v = Return False a"
    using Find_Return(2) [OF wfa False] by (simp add: Remove_def)
  then show ?thesis using False wfa by (simp add: remove1_idem)
next
  case True
  from Find_Return(1) [OF wfa True] obtain j where
    f: "Find a v = Return (word_of_nat j) a" and jl: "j < length (elems a)"
    and ns: "(word_of_nat j :: size_t) \<noteq> INDEX_NONE" and uj: "unat (word_of_nat j :: size_t) = j"
    and je: "j = length (takeWhile (\<lambda>x. x \<noteq> v) (elems a))"
    by blast
  have lt: "(word_of_nat j :: size_t) < mCount a"
    using jl uj length_elems [OF wfa] by (simp add: word_less_nat_alt)
  from RemoveAt_well_formed [OF wfa lt] obtain a' where
    r: "RemoveAt a (word_of_nat j) = Return () a'" and w: "well_formed a'"
    and e: "elems a' = take j (elems a) @ drop (Suc j) (elems a)"
    and c: "mCapacity a' = mCapacity a" "(mData a' = None) = (mData a = None)"
    unfolding uj by (elim exE conjE) (rule that)
  have "Remove a v = Return True a'" using f ns r by (simp add: Remove_def)
  moreover have "elems a' = remove1 v (elems a)"
    unfolding e je by (rule remove1_first [OF True])
  ultimately show ?thesis using True w c by simp
qed

lemma Find_not_Raise: "Find a v \<noteq> Raise e s"
  by (simp add: Find_def defined_def split: option.splits)

lemma FindIf_not_Raise: "FindIf a pred \<noteq> Raise e s"
  by (simp add: FindIf_def defined_def split: option.splits)

lemma FindLastIf_loop_not_Raise: "FindLastIf_loop a pred n \<noteq> Raise e s"
  by (induction n) (auto simp: defined_def split: option.splits)

lemma Find_state: "Find a v = Return r s \<Longrightarrow> s = a"
  by (auto simp: Find_def defined_Return_iff)

lemma Remove_Raise:
  assumes "Remove a v = Raise e s"
  shows "s = a"
proof -
  from assms obtain idx s' where f: "Find a v = Return idx s'"
    and r: "(if idx \<noteq> INDEX_NONE then andThen (RemoveAt s' idx) (\<lambda>_ a. Return True a)
             else Return False s') = Raise e s"
    unfolding Remove_def andThen_Raise_iff by (auto simp: Find_not_Raise)
  have s': "s' = a" by (rule Find_state [OF f])
  from r have "RemoveAt s' idx = Raise e s"
    by (cases "idx \<noteq> INDEX_NONE") (auto simp: andThen_Raise_iff)
  then show ?thesis using RemoveAt_Raise s' by blast
qed

lemma EmplaceAt_total:
  assumes wfa: "well_formed a" and i: "i \<le> mCount a"
  shows "EmplaceAt avail a i v = Raise BadAlloc a \<or> (\<exists>a'. EmplaceAt avail a i v = Return i a')"
proof (rule ensureCapacity_cases [OF wfa, of avail "mCount a + 1"])
  have iu: "unat i \<le> unat (mCount a)" using i by (simp add: word_le_nat_alt)
  then have chk: "\<not> mCount a + 1 \<le> i" using checkRange_end [OF wfa, of i] by simp
  {
    assume "ensureCapacity avail a (mCount a + 1) = Raise BadAlloc a"
    then show ?thesis using chk by (simp add: EmplaceAt_def checkRange_True)
  }
  {
    fix a2 assume ens: "ensureCapacity avail a (mCount a + 1) = Return () a2"
    note e = ensureCapacity_Return [OF wfa ens]
    have i2: "unat i \<le> unat (mCount a2)" using iu e(3) by simp
    have room: "unat (mCount a2) + 1 \<le> unat (mCapacity a2)"
      using e(4) count_succ [OF wfa] e(3) by (simp add: word_le_nat_alt)
    have tail: "i < mCount a2 \<longrightarrow> 1 \<le> unat (mCount a2) - unat i"
      by (auto simp: word_less_nat_alt)
    from insert_tail_ok [OF e(1) i2 _ _ room tail, of "[v]"]
    obtain b b' where sh: "(if i < mCount a2 then
                (case uninitialized_move_n (mem a2) (uint (mCount a2) - int 1) 1 (mem a2) (uint (mCount a2)) of
                   None \<Rightarrow> None
                 | Some b \<Rightarrow> move_backward b (uint i) (uint (mCount a2) - int 1) (uint (mCount a2)))
              else Some (mem a2)) = Some b" and w: "write_n b (uint i) [v] = Some b'"
      by auto
    have sh1: "(if i < mCount a2 then
                (case uninitialized_move_n (mem a2) (uint (mCount a2) - 1) 1 (mem a2) (uint (mCount a2)) of
                   None \<Rightarrow> None
                 | Some b \<Rightarrow> move_backward b (uint i) (uint (mCount a2) - 1) (uint (mCount a2)))
              else Some (mem a2)) = Some b"
      using sh by (simp only: of_nat_1)
    have "EmplaceAt avail a i v = Return i ((store a2 b')\<lparr>mCount := mCount a2 + 1\<rparr>)"
      by (simp only: EmplaceAt_def checkRange_True chk if_False andThen_simps ens sh1 defined_simps
            construct_at_def w)
    then show ?thesis by blast
  }
qed

lemma Emplace_Return:
  assumes wfa: "well_formed a" and r: "Emplace avail a v = Return r a'"
  shows "r = v" and "well_formed a'" and "elems a' = elems a @ [v]"
    and "unat (mCount a') = unat (mCount a) + 1"
    and "mCapacity a' = (if mCount a + 1 \<le> mCapacity a then mCapacity a
                         else max (mCount a + 1) (if mCapacity a = 0 then 8 else mCapacity a + drop_bit 1 (mCapacity a)))"
proof -
  from r obtain idx where e: "EmplaceAt avail a (mCount a) v = Return idx a'"
    and d: "deref (mem a') (uint idx) = Some r"
    unfolding Emplace_def andThen_Return_iff defined_Return_iff by auto
  note p = EmplaceAt_Return [OF wfa e]
  have el: "elems a' = elems a @ [v]" using p(4) length_elems [OF wfa] by simp
  have lt: "idx < mCount a'" using p(1,5) by (simp add: word_less_nat_alt)
  have "deref (mem a') (uint idx) = Some (elems a' ! unat idx)" by (rule deref_elems [OF p(3) lt])
  then have "r = elems a' ! unat idx" using d by simp
  then show "r = v" using el p(1) nth_append_length [of "elems a" v "[]"] length_elems [OF wfa] by simp
  show "well_formed a'" by (rule p(3))
  show "elems a' = elems a @ [v]" by (rule el)
  show "unat (mCount a') = unat (mCount a) + 1" by (rule p(5))
  show "mCapacity a' = (if mCount a + 1 \<le> mCapacity a then mCapacity a
                         else max (mCount a + 1) (if mCapacity a = 0 then 8 else mCapacity a + drop_bit 1 (mCapacity a)))"
    by (rule p(6))
qed

lemma Emplace_Raise: "Emplace avail a v = Raise e s \<Longrightarrow> s = a"
  by (auto simp: Emplace_def andThen_Raise_iff defined_Raise_iff dest: EmplaceAt_Raise(1))

lemma Add_Return:
  assumes wfa: "well_formed a" and r: "Add avail a v = Return r a'"
  shows "well_formed a'" and "elems a' = elems a @ [v]"
    and "unat (mCount a') = unat (mCount a) + 1"
    and "mCapacity a' = (if mCount a + 1 \<le> mCapacity a then mCapacity a
                         else max (mCount a + 1) (if mCapacity a = 0 then 8 else mCapacity a + drop_bit 1 (mCapacity a)))"
proof -
  from r obtain x where e: "Emplace avail a v = Return x a'"
    unfolding Add_def andThen_Return_iff by auto
  show "well_formed a'" "elems a' = elems a @ [v]" "unat (mCount a') = unat (mCount a) + 1"
    "mCapacity a' = (if mCount a + 1 \<le> mCapacity a then mCapacity a
                         else max (mCount a + 1) (if mCapacity a = 0 then 8 else mCapacity a + drop_bit 1 (mCapacity a)))"
    by (rule Emplace_Return [OF wfa e])+
qed

lemma Add_Raise: "Add avail a v = Raise e s \<Longrightarrow> s = a"
  by (auto simp: Add_def andThen_Raise_iff dest: Emplace_Raise)

lemma Array_sized_Return:
  assumes "Array_sized avail n = Return a u"
  shows "well_formed a" and "elems a = []" and "mCount a = 0" and "mCapacity a = n"
    and "mem a = replicate (unat n) None"
proof -
  have c: "(n = 0 \<and> a = \<lparr>mData = None, mCount = 0, mCapacity = n\<rparr>) \<or>
           (n \<noteq> 0 \<and> unat n \<le> PTRDIFF_MAX \<and>
            a = \<lparr>mData = Some (replicate (unat n) None), mCount = 0, mCapacity = n\<rparr>)"
    using assms
    by (auto simp: Array_sized_def operator_new_def word_gt_0 split: if_splits option.splits)
  show "well_formed a" using c by (auto simp: well_formed_def mem_def PTRDIFF_MAX_def)
  show "elems a = []" using c by (auto simp: elems_def)
  show "mCount a = 0" using c by auto
  show "mCapacity a = n" using c by auto
  show "mem a = replicate (unat n) None" using c by (auto simp: mem_def)
qed

lemma Array_sized_Raise: "Array_sized avail n = Raise e u \<Longrightarrow> e = BadAlloc"
  by (auto simp: Array_sized_def split: if_splits option.splits)

lemma fill_new:
  assumes s: "Array_sized avail n = Return a0 u"
    and c: "uninitialized_copy src 0 (int k) (mem a0) 0 = Some b"
    and le: "unat n \<le> k"
  shows "\<exists>vs. read_n src 0 k = Some vs \<and> k = unat n \<and>
           well_formed ((store a0 b)\<lparr>mCount := n\<rparr>) \<and>
           elems ((store a0 b)\<lparr>mCount := n\<rparr>) = vs \<and>
           mCapacity ((store a0 b)\<lparr>mCount := n\<rparr>) = n"
proof -
  note a0 = Array_sized_Return [OF s]
  from c obtain vs where r: "read_n src 0 k = Some vs" and w: "write_n (mem a0) 0 vs = Some b"
    by (auto simp: uninitialized_copy_def uninitialized_copy_n_def split: if_splits option.splits)
  have lv: "length vs = k" using read_n_bounds [OF r] by simp
  have "k \<le> unat n" using write_n_bounds [OF w] lv a0(5) by simp
  with le have k: "k = unat n" by simp
  have m: "mem a0 = [] @ replicate k None @ []" using a0(5) k by simp
  have "write_n (mem a0) 0 vs = Some ([] @ map Some vs @ [])"
    by (rule write_n_mid [OF m]) (simp_all add: lv)
  with w have b: "b = map Some vs @ []" by simp
  have len: "length vs + length ([] :: 'a buffer) = length (mem a0)" using lv k a0(5) by simp
  have cn: "length vs = unat n" using lv k by simp
  note st = store_live [OF a0(1) len cn]
  show ?thesis using r k st a0(4) unfolding b by auto
qed

lemma read_n_Some_map: "read_n (map Some xs) 0 (length xs) = Some xs"
  by (rule read_n_after [where P = "[]" and R = "[]"]) simp_all

lemma Array_ilist_Return:
  assumes "Array_ilist avail il = Return a u"
  shows "well_formed a" and "elems a = il" and "unat (mCount a) = length il"
    and "mCapacity a = mCount a"
proof -
  from assms obtain a0 u0 b where s: "Array_sized avail (word_of_nat (length il)) = Return a0 u0"
    and c: "uninitialized_copy (map Some il) 0 (int (length il)) (mem a0) 0 = Some b"
    and a: "a = (store a0 b)\<lparr>mCount := word_of_nat (length il)\<rparr>"
    unfolding Array_ilist_def andThen_Return_iff defined_Return_iff by auto
  have le: "unat (word_of_nat (length il) :: size_t) \<le> length il"
    by (simp add: unat_of_nat)
  from fill_new [OF s c le] obtain vs where r: "read_n (map Some il) 0 (length il) = Some vs"
    and k: "length il = unat (word_of_nat (length il) :: size_t)"
    and w: "well_formed a" and e: "elems a = vs" and cap: "mCapacity a = word_of_nat (length il)"
    unfolding a [symmetric] by (elim exE conjE) (rule that)
  show "well_formed a" by (rule w)
  show "elems a = il" using r e read_n_Some_map [of il] by simp
  show "unat (mCount a) = length il" using k a by simp
  show "mCapacity a = mCount a" using cap a by simp
qed

lemma Array_ilist_Raise: "Array_ilist avail il = Raise e u \<Longrightarrow> e = BadAlloc"
  by (auto simp: Array_ilist_def andThen_Raise_iff defined_Raise_iff dest: Array_sized_Raise)

lemma Array_copy_Return:
  assumes wfo: "well_formed other" and r: "Array_copy avail other = Return a u"
  shows "well_formed a" and "elems a = elems other" and "mCount a = mCount other"
    and "mCapacity a = mCount other"
proof -
  from r obtain a0 u0 b where s: "Array_sized avail (mCount other) = Return a0 u0"
    and c: "uninitialized_copy (mem other) 0 (uint (mCount other)) (mem a0) 0 = Some b"
    and a: "a = (store a0 b)\<lparr>mCount := mCount other\<rparr>"
    unfolding Array_copy_def andThen_Return_iff defined_Return_iff by auto
  have c': "uninitialized_copy (mem other) 0 (int (unat (mCount other))) (mem a0) 0 = Some b"
    using c by (simp only: uint_nat)
  from fill_new [OF s c' order_refl] obtain vs where rd: "read_n (mem other) 0 (unat (mCount other)) = Some vs"
    and w: "well_formed a" and e: "elems a = vs" and cap: "mCapacity a = mCount other"
    unfolding a [symmetric] by (elim exE conjE) (rule that)
  show "well_formed a" by (rule w)
  show "elems a = elems other" using rd e read_n_elems [OF wfo] by simp
  show "mCount a = mCount other" using a by simp
  show "mCapacity a = mCount other" by (rule cap)
qed

lemma Swap_eq: "Swap (a, b) = (b, a)"
  by (simp add: Swap_def Array_eta)

lemma assign_copy_Return:
  assumes wfa: "well_formed a" and wfo: "well_formed other"
    and r: "assign_copy avail a other = Return r a'"
  shows "well_formed a'" and "elems a' = elems other" and "mCount a' = mCount other"
    and "mCapacity a' = mCount other"
proof -
  from r obtain temp u where c: "Array_copy avail other = Return temp u"
    and d: "andThen (destructor a) (\<lambda>_ _. Return () temp) = Return r a'"
    by (auto simp: assign_copy_def Swap_eq split: result.splits)
  have "a' = temp" using d by (simp add: destructor_def cleanup_well_formed [OF wfa])
  then show "well_formed a'" "elems a' = elems other" "mCount a' = mCount other"
    "mCapacity a' = mCount other"
    using Array_copy_Return [OF wfo c] by simp_all
qed

lemma assign_copy_Raise: "assign_copy avail a other = Raise e s \<Longrightarrow> s = a"
  by (auto simp: assign_copy_def Swap_eq destructor_def andThen_Raise_iff cleanup_not_Raise
      split: result.splits)

lemma assign_ilist_Return:
  assumes wfa: "well_formed a" and r: "assign_ilist avail a il = Return r a'"
  shows "well_formed a'" and "elems a' = il" and "unat (mCount a') = length il"
    and "mCapacity a' = mCount a'"
proof -
  from r obtain temp u where c: "Array_ilist avail il = Return temp u"
    and d: "andThen (destructor a) (\<lambda>_ _. Return () temp) = Return r a'"
    by (auto simp: assign_ilist_def Swap_eq split: result.splits)
  have "a' = temp" using d by (simp add: destructor_def cleanup_well_formed [OF wfa])
  then show "well_formed a'" "elems a' = il" "unat (mCount a') = length il"
    "mCapacity a' = mCount a'"
    using Array_ilist_Return [OF c] by simp_all
qed

lemma assign_ilist_Raise: "assign_ilist avail a il = Raise e s \<Longrightarrow> s = a"
  by (auto simp: assign_ilist_def Swap_eq destructor_def andThen_Raise_iff cleanup_not_Raise
      split: result.splits)

lemma assign_move_well_formed:
  "well_formed t \<Longrightarrow> assign_move (t, a) = Return () (a, \<lparr>mData = None, mCount = 0, mCapacity = 0\<rparr>)"
  by (simp add: assign_move_def cleanup_well_formed Array_eta)

lemma assign_move_Raise: "assign_move (t, a) = Raise e s \<Longrightarrow> s = (t, a)"
  by (auto simp: assign_move_def cleanup_not_Raise split: result.splits)

lemma Insert_move_Return:
  assumes wft: "well_formed t" and wfs: "well_formed s"
    and r: "Insert_move avail (t, s) i = Return r (t', s')"
  shows "r = i" and "i \<le> mCount t" and "well_formed t'" and "well_formed s'"
    and "elems t' = take (unat i) (elems t) @ elems s @ drop (unat i) (elems t)"
    and "unat (mCount t') = unat (mCount t) + unat (mCount s)"
    and "elems s' = []" and "mCount s' = 0" and "mCapacity s' = mCapacity s"
    and "(mData s' = None) = (mData s = None)"
    and "mem s' = replicate (unat (mCount s)) None @ drop (unat (mCount s)) (mem s)"
proof -
  from r obtain u where ins: "insertImpl avail t i (mem s) (mCount s) = Return r t'"
    and cl: "Clear s = Return u s'"
    by (auto simp: Insert_move_def split: result.splits)
  note p = insertImpl_Return [OF wft ins]
  note c = Clear_Return [OF wfs cl]
  show "r = i" "i \<le> mCount t" "well_formed t'" by (rule p)+
  show "well_formed s'" "elems s' = []" "mCount s' = 0" "mCapacity s' = mCapacity s"
    "(mData s' = None) = (mData s = None)"
    "mem s' = replicate (unat (mCount s)) None @ drop (unat (mCount s)) (mem s)"
    by (rule c)+
  show "elems t' = take (unat i) (elems t) @ elems s @ drop (unat i) (elems t)"
    using p(4) read_n_elems [OF wfs] by auto
  show "unat (mCount t') = unat (mCount t) + unat (mCount s)" by (rule p(5))
qed

lemma Insert_move_Raise: "Insert_move avail (t, s) i = Raise e st \<Longrightarrow> st = (t, s)"
  by (auto simp: Insert_move_def Clear_not_Raise split: result.splits dest: insertImpl_Raise(1))

lemma returning_Return_iff:
  "returning f m = Return r s \<longleftrightarrow> (\<exists>x. m = Return x s \<and> r = f x)"
  by (cases m) (auto simp: returning_def)

lemma returning_Raise_iff: "returning f m = Raise e s \<longleftrightarrow> m = Raise e s"
  by (cases m) (auto simp: returning_def)

lemma returning_Undefined_iff: "returning f m = Undefined \<longleftrightarrow> m = Undefined"
  by (cases m) (auto simp: returning_def)

lemma reading_Return_iff:
  "reading f other m = Return r st \<longleftrightarrow> (\<exists>x a. m = Return x a \<and> r = f x \<and> st = (a, other))"
  by (cases m) (auto simp: reading_def)

lemma reading_Raise_iff:
  "reading f other m = Raise e st \<longleftrightarrow> (\<exists>a. m = Raise e a \<and> st = (a, other))"
  by (cases m) (auto simp: reading_def)

lemma subscript_state: "subscript a i = Return r s \<Longrightarrow> s = a"
  by (auto simp: subscript_def andThen_Return_iff defined_Return_iff checkRange_Return_iff)

lemma FindIf_state: "FindIf a pred = Return r s \<Longrightarrow> s = a"
  by (auto simp: FindIf_def defined_Return_iff)

lemma FindLastIf_loop_state: "FindLastIf_loop a pred n = Return r s \<Longrightarrow> s = a"
  by (induction n) (auto simp: defined_Return_iff split: if_splits)

lemma Contains_state: "Contains a v = Return r s \<Longrightarrow> s = a"
  by (auto simp: Contains_def andThen_Return_iff dest: Find_state)

lemma ContainsIf_state: "ContainsIf a pred = Return r s \<Longrightarrow> s = a"
  by (auto simp: ContainsIf_def andThen_Return_iff dest: FindIf_state)

lemma Contains_not_Raise: "Contains a v \<noteq> Raise e s"
  by (auto simp: Contains_def andThen_Raise_iff Find_not_Raise)

lemma ContainsIf_not_Raise: "ContainsIf a pred \<noteq> Raise e s"
  by (auto simp: ContainsIf_def andThen_Raise_iff FindIf_not_Raise)

lemma Resize_Raise: "Resize avail a n v = Raise e s \<Longrightarrow> s = a"
  by (auto simp: Resize_def andThen_Raise_iff defined_Raise_iff split: if_splits
      dest: ensureCapacity_Raise)

lemma Append_ilist_Raise: "Append_ilist avail a il = Raise e s \<Longrightarrow> s = a"
  by (auto simp: Append_ilist_def Insert_ilist_def andThen_Raise_iff dest: insertImpl_Raise(1))

lemma Append_range_Raise: "Append_range avail a ptr cnt = Raise e s \<Longrightarrow> s = a"
  by (auto simp: Append_range_def Insert_range_def andThen_Raise_iff dest: insertImpl_Raise(1))

lemma Append_array_Raise: "Append_array avail a other = Raise e s \<Longrightarrow> s = a"
  by (auto simp: Append_array_def Insert_array_def andThen_Raise_iff dest: insertImpl_Raise(1))

lemma Append_move_Raise: "Append_move avail (a, other) = Raise e st \<Longrightarrow> st = (a, other)"
  by (auto simp: Append_move_def andThen_Raise_iff dest: Insert_move_Raise)

lemma exec_Raise: "exec avail op a = Raise e a' \<Longrightarrow> a' = a"
proof (cases op)
qed (auto simp: returning_Raise_iff Insert_value_def Insert_ilist_def Insert_range_def
      FindLastIf_def FindLast_def
      Clear_not_Raise Contains_not_Raise ContainsIf_not_Raise Find_not_Raise FindIf_not_Raise
      FindLastIf_loop_not_Raise RemoveAll_not_Raise Sort_not_Raise
      dest: subscript_Raise subscript_assign_Raise Add_Raise Emplace_Raise EmplaceAt_Raise(1)
        insertImpl_Raise(1) Append_ilist_Raise Append_range_Raise RemoveAt_Raise Remove_Raise
        Reserve_Raise Resize_Raise Shrink_Raise assign_ilist_Raise)

lemma exec2_Raise: "exec2 avail op' (a, other) = Raise e st \<Longrightarrow> st = (a, other)"
proof (cases op')
qed (auto simp: returning_Raise_iff reading_Raise_iff Insert_array_def
      dest: insertImpl_Raise(1) Insert_move_Raise Append_array_Raise Append_move_Raise
        assign_copy_Raise assign_move_Raise)

lemma unat_grow:
  "unat (c :: size_t) \<le> PTRDIFF_MAX \<Longrightarrow> unat (c + drop_bit 1 c) = unat c + unat c div 2"
proof -
  assume b: "unat c \<le> PTRDIFF_MAX"
  have d: "unat (drop_bit 1 c) = unat c div 2"
    by (simp only: unat_drop_bit_eq) (simp add: drop_bit_eq_div)
  have "unat c + unat (drop_bit 1 c) < 2 ^ 64" using b d by (simp add: PTRDIFF_MAX_def)
  then have "unat (c + drop_bit 1 c) = unat c + unat (drop_bit 1 c)"
    using unat_add_lem [of c "drop_bit 1 c"] by simp
  then show ?thesis using d by simp
qed

lemma unat_max: "unat (max (x :: size_t) y) = max (unat x) (unat y)"
  by (simp add: max_def word_le_nat_alt)

lemma grows_word:
  assumes "unat (c :: size_t) \<le> PTRDIFF_MAX"
  shows "unat (if m \<le> c then c else max m (if c = 0 then 8 else c + drop_bit 1 c))
         = grows (unat m) (unat c)"
  using assms unat_grow [OF assms]
  by (simp add: grows_def unat_max word_le_nat_alt unat_eq_0)

lemma first_match_takeWhile:
  "(if length (takeWhile (\<lambda>x. \<not> pred x) xs) \<noteq> length xs
    then word_of_nat (length (takeWhile (\<lambda>x. \<not> pred x) xs)) else INDEX_NONE) = first_match pred xs"
proof (cases "\<exists>x \<in> set xs. pred x")
  case True
  then show ?thesis using takeWhile_first(1) [OF True] by (simp add: first_match_def)
next
  case False
  then have "\<forall>x \<in> set xs. \<not> pred x" by simp
  then have "length (takeWhile (\<lambda>x. \<not> pred x) xs) = length xs" by (rule takeWhile_none)
  then show ?thesis using False by (simp add: first_match_def)
qed

lemma FindIf_post:
  "well_formed a \<Longrightarrow> FindIf a pred = Return (first_match pred (elems a)) a"
  by (simp only: Find_well_formed first_match_takeWhile)

lemma Find_post:
  "well_formed a \<Longrightarrow> Find a v = Return (first_match (\<lambda>x. x = v) (elems a)) a"
  by (simp only: Find_FindIf FindIf_post)

lemma first_match_sentinel:
  assumes "length xs \<le> PTRDIFF_MAX"
  shows "first_match pred xs \<noteq> INDEX_NONE \<longleftrightarrow> (\<exists>x \<in> set xs. pred x)"
proof (cases "\<exists>x \<in> set xs. pred x")
  case True
  have "length (takeWhile (\<lambda>x. \<not> pred x) xs) \<le> PTRDIFF_MAX"
    using takeWhile_first(1) [OF True] assms by simp
  from index_not_sentinel [OF this] True show ?thesis by (simp add: first_match_def)
next
  case False
  then show ?thesis by (simp add: first_match_def)
qed

lemma last_index_unique:
  assumes "j < length xs" "pred (xs ! j)" "\<forall>m. j < m \<and> m < length xs \<longrightarrow> \<not> pred (xs ! m)"
  shows "j = length xs - 1 - length (takeWhile (\<lambda>x. \<not> pred x) (rev xs))"
proof -
  let ?k = "length (takeWhile (\<lambda>x. \<not> pred x) (rev xs))"
  have "xs ! j \<in> set xs" using assms(1) by simp
  then have ex: "\<exists>x \<in> set (rev xs). pred x" using assms(2) by auto
  note t = takeWhile_first [OF ex]
  have kl: "?k < length xs" using t(1) by simp
  have pk: "pred (xs ! (length xs - 1 - ?k))"
    using t(2) kl by (simp add: rev_nth)
  have nk: "\<not> pred (xs ! (length xs - 1 - m))" if "m < ?k" for m
    using t(3) that kl by (simp add: rev_nth)
  show ?thesis
  proof (rule ccontr)
    assume ne: "j \<noteq> length xs - 1 - ?k"
    then consider "j < length xs - 1 - ?k" | "length xs - 1 - ?k < j" by arith
    then show False
    proof cases
      case 1
      then have "\<not> pred (xs ! (length xs - 1 - ?k))" using assms(3) kl by simp
      with pk show False by simp
    next
      case 2
      define m where "m = length xs - 1 - j"
      have "m < ?k" using 2 assms(1) unfolding m_def by arith
      from nk [OF this] have "\<not> pred (xs ! (length xs - 1 - m))" .
      moreover have "length xs - 1 - m = j" using assms(1) by (simp add: m_def)
      ultimately show False using assms(2) by simp
    qed
  qed
qed

lemma FindLastIf_post:
  assumes wfa: "well_formed a"
  shows "FindLastIf a pred = Return (last_match pred (elems a)) a"
proof -
  have n: "unat (mCount a) \<le> length (elems a)" by (simp add: length_elems [OF wfa])
  from FindLastIf_loop_live [OF wfa n, of pred]
  show ?thesis
  proof
    assume "\<exists>j<unat (mCount a). FindLastIf_loop a pred (unat (mCount a)) = Return (word_of_nat j) a \<and>
       pred (elems a ! j) \<and> (\<forall>m. j < m \<and> m < unat (mCount a) \<longrightarrow> \<not> pred (elems a ! m))"
    then obtain j where j: "j < unat (mCount a)"
      "FindLastIf_loop a pred (unat (mCount a)) = Return (word_of_nat j) a"
      "pred (elems a ! j)" "\<forall>m. j < m \<and> m < unat (mCount a) \<longrightarrow> \<not> pred (elems a ! m)"
      by (elim exE conjE) (rule that)
    have jl: "j < length (elems a)" using j(1) by (simp add: length_elems [OF wfa])
    have "elems a ! j \<in> set (elems a)" using jl by simp
    then have ex: "\<exists>x \<in> set (elems a). pred x" using j(3) by auto
    have "j = length (elems a) - 1 - length (takeWhile (\<lambda>x. \<not> pred x) (rev (elems a)))"
      using last_index_unique [of j "elems a" pred] jl j(3) j(4) by (simp add: length_elems [OF wfa])
    then show ?thesis using j(2) ex by (simp add: FindLastIf_def last_match_def)
  next
    assume n: "FindLastIf_loop a pred (unat (mCount a)) = Return INDEX_NONE a \<and>
       (\<forall>m<unat (mCount a). \<not> pred (elems a ! m))"
    then have "\<not> (\<exists>x \<in> set (elems a). pred x)"
      by (auto simp: in_set_conv_nth length_elems [OF wfa])
    then show ?thesis using n by (simp add: FindLastIf_def last_match_def)
  qed
qed

lemma FindLast_FindLastIf: "FindLast a v = FindLastIf a (\<lambda>x. x = v)"
  by (simp add: FindLast_def FindLastIf_def)

lemma subscript_assign_Return:
  assumes wfa: "well_formed a" and r: "subscript_assign a i v = Return r a'"
  shows "well_formed a'" and "elems a' = (elems a)[unat i := v]" and "mCapacity a' = mCapacity a"
proof -
  have lt: "i < mCount a"
    using r by (auto simp: subscript_assign_def andThen_Return_iff checkRange_Return_iff not_le)
  from subscript_assign_well_formed [OF wfa lt, of v] r
  show "well_formed a'" "elems a' = (elems a)[unat i := v]" "mCapacity a' = mCapacity a"
    by auto
qed

lemma RemoveAt_Return:
  assumes wfa: "well_formed a" and r: "RemoveAt a i = Return r a'"
  shows "well_formed a'" and "elems a' = take (unat i) (elems a) @ drop (Suc (unat i)) (elems a)"
    and "mCapacity a' = mCapacity a"
proof -
  have lt: "i < mCount a"
    using r by (auto simp: RemoveAt_def andThen_Return_iff checkRange_Return_iff not_le)
  from RemoveAt_well_formed [OF wfa lt] r
  show "well_formed a'" "elems a' = take (unat i) (elems a) @ drop (Suc (unat i)) (elems a)"
    "mCapacity a' = mCapacity a"
    by auto
qed

lemma mset_insert_by [simp]: "mset (insert_by cmp x ys) = add_mset x (mset ys)"
  by (induction ys) auto

lemma mset_foldr_insert_by [simp]: "mset (foldr (insert_by cmp) xs []) = mset xs"
  by (induction xs) auto

lemma strict_weak_on_neg_trans:
  assumes sw: "strict_weak_on cmp xs" and m: "x \<in> set xs" "y \<in> set xs" "z \<in> set xs"
    and n: "\<not> cmp x y" "\<not> cmp y z"
  shows "\<not> cmp x z"
proof
  assume xz: "cmp x z"
  have tr: "\<And>u v w. u \<in> set xs \<Longrightarrow> v \<in> set xs \<Longrightarrow> w \<in> set xs \<Longrightarrow> cmp u v \<Longrightarrow> cmp v w \<Longrightarrow> cmp u w"
    using sw unfolding strict_weak_on_def by blast
  have eq: "\<And>u v w. u \<in> set xs \<Longrightarrow> v \<in> set xs \<Longrightarrow> w \<in> set xs \<Longrightarrow>
      \<not> cmp u v \<Longrightarrow> \<not> cmp v u \<Longrightarrow> \<not> cmp v w \<Longrightarrow> \<not> cmp w v \<Longrightarrow> \<not> cmp u w"
    using sw unfolding strict_weak_on_def by blast
  have "\<not> cmp y x" using tr [OF m(2) m(1) m(3)] xz n(2) by blast
  moreover have "\<not> cmp z y" using tr [OF m(1) m(3) m(2)] xz n(1) by blast
  ultimately have "\<not> cmp x z" using eq [OF m] n by blast
  with xz show False by simp
qed

lemma strict_weak_on_asym:
  assumes sw: "strict_weak_on cmp xs" and m: "x \<in> set xs" "y \<in> set xs" and c: "cmp x y"
  shows "\<not> cmp y x"
proof
  assume "cmp y x"
  then have "cmp x x" using sw m c unfolding strict_weak_on_def by blast
  then show False using sw m unfolding strict_weak_on_def by blast
qed

lemma set_insert_by [simp]: "set (insert_by cmp x ys) = insert x (set ys)"
  by (induction ys) auto

lemma set_foldr_insert_by [simp]: "set (foldr (insert_by cmp) xs []) = set xs"
  by (induction xs) auto

lemma sorted_insert_by:
  assumes sw: "strict_weak_on cmp zs" and x: "x \<in> set zs"
  shows "set ys \<subseteq> set zs \<Longrightarrow> sorted_wrt (\<lambda>a b. \<not> cmp b a) ys \<Longrightarrow>
         sorted_wrt (\<lambda>a b. \<not> cmp b a) (insert_by cmp x ys)"
proof (induction ys)
  case Nil
  then show ?case by simp
next
  case (Cons y ys)
  show ?case
  proof (cases "cmp y x")
    case True
    have "\<not> cmp x y" using strict_weak_on_asym [OF sw _ x True] Cons.prems(1) by simp
    then show ?thesis using True Cons by auto
  next
    case False
    have "\<not> cmp w x" if "w \<in> set ys" for w
    proof -
      have "\<not> cmp w y" using Cons.prems(2) that by simp
      then show ?thesis
        using strict_weak_on_neg_trans [OF sw _ _ x, of w y] that Cons.prems(1) False by auto
    qed
    then show ?thesis using False Cons.prems(2) by auto
  qed
qed

lemma sorted_foldr_insert_by:
  assumes sw: "strict_weak_on cmp zs"
  shows "set xs \<subseteq> set zs \<Longrightarrow> sorted_wrt (\<lambda>a b. \<not> cmp b a) (foldr (insert_by cmp) xs [])"
proof (induction xs)
  case Nil
  then show ?case by simp
next
  case (Cons x xs)
  then show ?case using sorted_insert_by [OF sw, of x "foldr (insert_by cmp) xs []"] by simp
qed

lemma Sort_well_formed:
  assumes wfa: "well_formed a" and sw: "strict_weak_on cmp (elems a)"
  shows "\<exists>a'. Sort a cmp = Return () a' \<and> well_formed a' \<and>
           elems a' = foldr (insert_by cmp) (elems a) [] \<and>
           mCount a' = mCount a \<and> mCapacity a' = mCapacity a \<and>
           (mData a' = None) = (mData a = None)"
proof -
  define xs where "xs = elems a"
  define junk where "junk = drop (unat (mCount a)) (mem a)"
  define ys where "ys = foldr (insert_by cmp) xs []"
  have lx: "length xs = unat (mCount a)" unfolding xs_def by (rule length_elems [OF wfa])
  have ly: "length ys = length xs" by (simp add: ys_def)
  have buf: "mem a = [] @ map Some xs @ junk"
    unfolding xs_def junk_def by (rule well_formed_mem_Nil [OF wfa])
  have r: "read_n (mem a) 0 (nat (uint (mCount a) - 0)) = Some xs"
    unfolding uint_nat by (rule read_n_after [OF buf]) (simp_all add: lx)
  have w: "write_n (mem a) 0 ys = Some ([] @ map Some ys @ junk)"
    by (rule write_n_mid [OF buf]) (simp_all add: ly)
  have sw': "strict_weak_on cmp xs" using sw by (simp add: xs_def)
  have res: "Sort a cmp = Return () (store a (map Some ys @ junk))"
    unfolding Sort_def std_sort_def r option.case ys_def [symmetric]
    using sw' w by simp
  have len: "length ys + length junk = length (mem a)" using buf ly by simp
  have c: "length ys = unat (mCount a)" using ly lx by simp
  note s = store_live_same [OF wfa len c]
  show ?thesis using res s unfolding ys_def xs_def by simp
qed

lemma Sort_Return:
  assumes wfa: "well_formed a" and r: "Sort a cmp = Return r a'"
  shows "well_formed a'" and "elems a' = foldr (insert_by cmp) (elems a) []"
    and "mCapacity a' = mCapacity a" and "strict_weak_on cmp (elems a)"
proof -
  have rd: "read_n (mem a) 0 (nat (uint (mCount a) - 0)) = Some (elems a)"
    using read_n_elems [OF wfa] by (simp add: uint_nat del: of_nat_unat)
  show sw: "strict_weak_on cmp (elems a)"
    using r unfolding Sort_def std_sort_def rd defined_Return_iff
    by (auto split: if_splits)
  from Sort_well_formed [OF wfa sw] r
  show "well_formed a'" "elems a' = foldr (insert_by cmp) (elems a) []" "mCapacity a' = mCapacity a"
    by auto
qed

lemma Resize_Return:
  assumes wfa: "well_formed a" and r: "Resize avail a n v = Return r a'"
  shows "well_formed a'"
    and "elems a' = take (unat n) (elems a) @ replicate (unat n - unat (mCount a)) v"
    and "mCount a' = n"
    and "mCapacity a' = (if n \<le> mCapacity a then mCapacity a
                         else max n (if mCapacity a = 0 then 8 else mCapacity a + drop_bit 1 (mCapacity a)))"
  using Resize_well_formed [OF wfa, of avail n v] r by auto

lemma RemoveAll_Return:
  assumes wfa: "well_formed a" and r: "RemoveAll a pred = Return r a'"
  shows "well_formed a'" and "elems a' = filter (\<lambda>x. \<not> pred x) (elems a)"
    and "unat r = length (elems a) - length (filter (\<lambda>x. \<not> pred x) (elems a))"
    and "mCapacity a' = mCapacity a"
  using RemoveAll_well_formed [OF wfa, of pred] r by auto

lemma Remove_Return:
  assumes wfa: "well_formed a" and r: "Remove a v = Return r a'"
  shows "well_formed a'" and "elems a' = remove1 v (elems a)" and "r = (v \<in> set (elems a))"
    and "mCapacity a' = mCapacity a"
  using Remove_well_formed [OF wfa, of v] r by auto

lemma Append_ilist_Return:
  assumes wfa: "well_formed a" and r: "Append_ilist avail a il = Return r a'"
  shows "insertImpl avail a (mCount a) (map Some il) (word_of_nat (length il)) = Return (mCount a) a'"
proof -
  from r obtain x where i: "insertImpl avail a (mCount a) (map Some il) (word_of_nat (length il)) = Return x a'"
    unfolding Append_ilist_def Insert_ilist_def andThen_Return_iff by auto
  from insertImpl_Return(1) [OF wfa i] i show ?thesis by simp
qed

lemma Append_range_Return:
  assumes wfa: "well_formed a" and r: "Append_range avail a ptr cnt = Return r a'"
  shows "insertImpl avail a (mCount a) ptr cnt = Return (mCount a) a'"
proof -
  from r obtain x where i: "insertImpl avail a (mCount a) ptr cnt = Return x a'"
    unfolding Append_range_def Insert_range_def andThen_Return_iff by auto
  from insertImpl_Return(1) [OF wfa i] i show ?thesis by simp
qed

lemma Append_array_Return:
  assumes wfa: "well_formed a" and r: "Append_array avail a other = Return r a'"
  shows "insertImpl avail a (mCount a) (mem other) (mCount other) = Return (mCount a) a'"
proof -
  from r obtain x where i: "insertImpl avail a (mCount a) (mem other) (mCount other) = Return x a'"
    unfolding Append_array_def Insert_array_def andThen_Return_iff by auto
  from insertImpl_Return(1) [OF wfa i] i show ?thesis by simp
qed

lemma Append_move_Return:
  assumes wfa: "well_formed a" and r: "Append_move avail (a, other) = Return r st"
  shows "Insert_move avail (a, other) (mCount a) = Return (mCount a) st"
proof -
  from r obtain x where i: "Insert_move avail (a, other) (mCount a) = Return x st"
    unfolding Append_move_def andThen_Return_iff by auto
  then obtain u t' where "insertImpl avail a (mCount a) (mem other) (mCount other) = Return x t'"
    by (auto simp: Insert_move_def split: result.splits)
  from insertImpl_Return(1) [OF wfa this] i show ?thesis by simp
qed

lemma exec_well_formed:
  assumes wfa: "well_formed a" and r: "exec avail op a = Return r a'"
  shows "well_formed a'"
proof (cases op)
  case (Op_subscript i)
  then show ?thesis using r wfa by (auto simp: returning_Return_iff dest: subscript_state)
next
  case (Op_subscript_assign i v)
  then show ?thesis using r by (auto simp: returning_Return_iff dest: subscript_assign_Return(1) [OF wfa])
next
  case (Op_Add v)
  then show ?thesis using r by (auto simp: returning_Return_iff dest: Add_Return(1) [OF wfa])
next
  case (Op_Emplace v)
  then show ?thesis using r by (auto simp: returning_Return_iff dest: Emplace_Return(2) [OF wfa])
next
  case (Op_EmplaceAt i v)
  then show ?thesis using r by (auto simp: returning_Return_iff dest: EmplaceAt_Return(3) [OF wfa])
next
  case (Op_Insert_value i v)
  then show ?thesis using r
    by (auto simp: returning_Return_iff Insert_value_def dest: EmplaceAt_Return(3) [OF wfa])
next
  case (Op_Insert_ilist i il)
  then show ?thesis using r
    by (auto simp: returning_Return_iff Insert_ilist_def dest: insertImpl_Return(3) [OF wfa])
next
  case (Op_Insert_range i ptr cnt)
  then show ?thesis using r
    by (auto simp: returning_Return_iff Insert_range_def dest: insertImpl_Return(3) [OF wfa])
next
  case (Op_Append_ilist il)
  then show ?thesis using r
    by (auto simp: returning_Return_iff dest!: Append_ilist_Return [OF wfa] dest: insertImpl_Return(3) [OF wfa])
next
  case (Op_Append_range ptr cnt)
  then show ?thesis using r
    by (auto simp: returning_Return_iff dest!: Append_range_Return [OF wfa] dest: insertImpl_Return(3) [OF wfa])
next
  case Op_Clear
  then show ?thesis using r by (auto simp: returning_Return_iff dest: Clear_Return(1) [OF wfa])
next
  case (Op_Contains v)
  then show ?thesis using r wfa by (auto simp: returning_Return_iff dest: Contains_state)
next
  case (Op_ContainsIf pred)
  then show ?thesis using r wfa by (auto simp: returning_Return_iff dest: ContainsIf_state)
next
  case (Op_Find v)
  then show ?thesis using r wfa by (auto simp: returning_Return_iff dest: Find_state)
next
  case (Op_FindIf pred)
  then show ?thesis using r wfa by (auto simp: returning_Return_iff dest: FindIf_state)
next
  case (Op_FindLast v)
  then show ?thesis using r wfa
    by (auto simp: returning_Return_iff FindLast_def dest: FindLastIf_loop_state)
next
  case (Op_FindLastIf pred)
  then show ?thesis using r wfa
    by (auto simp: returning_Return_iff FindLastIf_def dest: FindLastIf_loop_state)
next
  case (Op_RemoveAt i)
  then show ?thesis using r by (auto simp: returning_Return_iff dest: RemoveAt_Return(1) [OF wfa])
next
  case (Op_Remove v)
  then show ?thesis using r by (auto simp: returning_Return_iff dest: Remove_Return(1) [OF wfa])
next
  case (Op_RemoveAll pred)
  then show ?thesis using r by (auto simp: returning_Return_iff dest: RemoveAll_Return(1) [OF wfa])
next
  case (Op_Reserve n)
  then show ?thesis using r by (auto simp: returning_Return_iff dest: Reserve_Return(1) [OF wfa])
next
  case (Op_Resize n v)
  then show ?thesis using r by (auto simp: returning_Return_iff dest: Resize_Return(1) [OF wfa])
next
  case Op_Shrink
  then show ?thesis using r by (auto simp: returning_Return_iff dest: Shrink_Return(1) [OF wfa])
next
  case (Op_Sort cmp)
  then show ?thesis using r by (auto simp: returning_Return_iff dest: Sort_Return(1) [OF wfa])
next
  case (Op_assign_ilist il)
  then show ?thesis using r by (auto simp: returning_Return_iff dest: assign_ilist_Return(1) [OF wfa])
qed

lemma exec2_well_formed:
  assumes wfa: "well_formed a" and wfo: "well_formed other"
    and r: "exec2 avail op' (a, other) = Return r (a', other')"
  shows "well_formed a' \<and> well_formed other'"
proof (cases op')
  case (Op_Insert_array i)
  then show ?thesis using r wfo
    by (auto simp: reading_Return_iff Insert_array_def dest: insertImpl_Return(3) [OF wfa])
next
  case (Op_Insert_move i)
  then show ?thesis using r
    by (auto simp: returning_Return_iff dest: Insert_move_Return(3,4) [OF wfa wfo])
next
  case Op_Append_array
  then show ?thesis using r wfo
    by (auto simp: reading_Return_iff dest!: Append_array_Return [OF wfa] dest: insertImpl_Return(3) [OF wfa])
next
  case Op_Append_move
  then show ?thesis using r
    by (auto simp: returning_Return_iff dest!: Append_move_Return [OF wfa]
        dest: Insert_move_Return(3,4) [OF wfa wfo])
next
  case Op_assign_copy
  then show ?thesis using r wfo
    by (auto simp: reading_Return_iff dest: assign_copy_Return(1) [OF wfa wfo])
next
  case Op_assign_move
  then show ?thesis using r wfo
    by (auto simp: returning_Return_iff assign_move_well_formed [OF wfa] well_formed_null)
next
  case Op_Swap
  then show ?thesis using r wfa wfo by (auto simp: Swap_eq)
qed

lemma reachable_well_formed: "reachable a \<Longrightarrow> well_formed a"
proof (induction rule: reachable.induct)
  case (default a)
  then show ?case by (auto simp: Array_default_def dest: Array_sized_Return(1))
next
  case (sized avail capacity a)
  then show ?case by (rule Array_sized_Return(1))
next
  case (ilist avail il a)
  then show ?case by (rule Array_ilist_Return(1))
next
  case (copy other avail a)
  then show ?case using Array_copy_Return(1) by blast
next
  case (move_new other a other')
  then show ?case by (auto simp: Array_move_def Array_eta)
next
  case (move_source other a other')
  then show ?case by (auto simp: Array_move_def well_formed_null)
next
  case (returns a avail op r a')
  then show ?case using exec_well_formed by blast
next
  case (throws a avail op e a')
  then show ?case using exec_Raise by blast
next
  case (returns2_this a other avail op' r a' other')
  then show ?case using exec2_well_formed by blast
next
  case (returns2_other a other avail op' r a' other')
  then show ?case using exec2_well_formed by blast
next
  case (throws2_this a other avail op' e a' other')
  then show ?case using exec2_Raise by blast
next
  case (throws2_other a other avail op' e a' other')
  then show ?case using exec2_Raise by blast
qed

lemma well_formed_rep_inv: "well_formed a \<Longrightarrow> rep_inv a"
  by (simp add: well_formed_def rep_inv_def)

lemma read_n_value: "read_n buf 0 n = Some vs \<Longrightarrow> vs = map the (take n buf)"
  by (auto simp: read_n_def split: if_splits)

lemma cap_succ:
  assumes wfa: "well_formed a"
  shows "unat (if mCount a + 1 \<le> mCapacity a then mCapacity a
               else max (mCount a + 1) (if mCapacity a = 0 then 8 else mCapacity a + drop_bit 1 (mCapacity a)))
         = grows (length (elems a) + 1) (unat (mCapacity a))"
  using grows_word [OF well_formed_cap_bound [OF wfa], of "mCount a + 1"]
  by (simp add: count_succ [OF wfa] length_elems [OF wfa])

lemma insertImpl_post:
  assumes wfa: "well_formed a" and r: "insertImpl avail a i ptr cnt = Return r a'"
  shows "r = i" and "well_formed a'"
    and "elems a' = take (unat i) (elems a) @ map the (take (unat cnt) ptr) @ drop (unat i) (elems a)"
    and "unat (mCapacity a') = grows (length (elems a) + unat cnt) (unat (mCapacity a))"
proof -
  note p = insertImpl_Return [OF wfa r]
  show "r = i" "well_formed a'" by (rule p)+
  from p(4) obtain vs where rd: "read_n ptr 0 (unat cnt) = Some vs"
    and e: "elems a' = take (unat i) (elems a) @ vs @ drop (unat i) (elems a)" by blast
  show "elems a' = take (unat i) (elems a) @ map the (take (unat cnt) ptr) @ drop (unat i) (elems a)"
    using e read_n_value [OF rd] by simp
  have "unat (mCount a) + unat cnt \<le> PTRDIFF_MAX"
    using p(5) well_formed_count_bound [OF p(3)] by simp
  then have s: "unat (mCount a + cnt) = unat (mCount a) + unat cnt" by (rule unat_add_bounded)
  have z: "cnt = 0 \<Longrightarrow> mCount a + cnt \<le> mCapacity a" using wfa by (simp add: well_formed_def)
  have "mCapacity a' = (if mCount a + cnt \<le> mCapacity a then mCapacity a
                         else max (mCount a + cnt) (if mCapacity a = 0 then 8 else mCapacity a + drop_bit 1 (mCapacity a)))"
    using p(6) z by auto
  then show "unat (mCapacity a') = grows (length (elems a) + unat cnt) (unat (mCapacity a))"
    using grows_word [OF well_formed_cap_bound [OF wfa], of "mCount a + cnt"] s
    by (simp add: length_elems [OF wfa])
qed

lemma ilist_count:
  "length il \<le> PTRDIFF_MAX \<Longrightarrow> unat (word_of_nat (length il) :: size_t) = length il"
  by (simp add: unat_of_nat PTRDIFF_MAX_def)

lemma removed_count:
  assumes "unat (r :: size_t) = length xs - length (filter (\<lambda>x. \<not> pred x) xs)"
  shows "r = word_of_nat (length (filter pred xs))"
proof -
  have "length (filter pred xs) + length (filter (\<lambda>x. \<not> pred x) xs) = length xs"
    by (rule sum_length_filter_compl)
  then have u: "unat r = length (filter pred xs)" using assms by simp
  have "word_of_nat (unat r) = r" by simp
  then show ?thesis unfolding u by simp
qed

lemma exec_post:
  assumes wfa: "well_formed a" and ok: "args_ok op" and r: "exec avail op a = Return r a'"
  shows "post op (elems a) (unat (mCapacity a)) r (elems a') (unat (mCapacity a'))"
proof (cases op)
  case (Op_subscript i)
  then show ?thesis using r subscript_well_formed [OF wfa, of i]
    by (auto simp: returning_Return_iff split: if_splits)
next
  case (Op_subscript_assign i v)
  then show ?thesis using r
    by (auto simp: returning_Return_iff dest: subscript_assign_Return [OF wfa])
next
  case (Op_Add v)
  then obtain x where x: "Add avail a v = Return x a'" and rr: "r = R_unit"
    using r by (auto simp: returning_Return_iff)
  note p = Add_Return [OF wfa x]
  show ?thesis using Op_Add rr p(2) p(4) cap_succ [OF wfa] by simp
next
  case (Op_Emplace v)
  then obtain x where x: "Emplace avail a v = Return x a'" and rr: "r = R_elem x"
    using r by (auto simp: returning_Return_iff)
  note p = Emplace_Return [OF wfa x]
  show ?thesis using Op_Emplace rr p(1) p(3) p(5) cap_succ [OF wfa] by simp
next
  case (Op_EmplaceAt i v)
  then obtain x where x: "EmplaceAt avail a i v = Return x a'" and rr: "r = R_index x"
    using r by (auto simp: returning_Return_iff)
  note p = EmplaceAt_Return [OF wfa x]
  show ?thesis using Op_EmplaceAt rr p(1) p(4) p(6) cap_succ [OF wfa] by simp
next
  case (Op_Insert_value i v)
  then obtain x where x: "EmplaceAt avail a i v = Return x a'" and rr: "r = R_index x"
    using r by (auto simp: returning_Return_iff Insert_value_def)
  note p = EmplaceAt_Return [OF wfa x]
  show ?thesis using Op_Insert_value rr p(1) p(4) p(6) cap_succ [OF wfa] by simp
next
  case (Op_Insert_ilist i il)
  then obtain x where x: "insertImpl avail a i (map Some il) (word_of_nat (length il)) = Return x a'"
    and rr: "r = R_index x"
    using r by (auto simp: returning_Return_iff Insert_ilist_def)
  note p = insertImpl_post [OF wfa x]
  have n: "unat (word_of_nat (length il) :: size_t) = length il"
    using ok Op_Insert_ilist by (simp add: ilist_count)
  show ?thesis using Op_Insert_ilist rr p(1) p(3) p(4) unfolding n by (simp add: comp_def)
next
  case (Op_Insert_range i ptr cnt)
  then obtain x where x: "insertImpl avail a i ptr cnt = Return x a'" and rr: "r = R_index x"
    using r by (auto simp: returning_Return_iff Insert_range_def)
  note p = insertImpl_post [OF wfa x]
  show ?thesis using Op_Insert_range rr p(1) p(3) p(4) by simp
next
  case (Op_Append_ilist il)
  then obtain x where x: "Append_ilist avail a il = Return x a'" and rr: "r = R_unit"
    using r by (auto simp: returning_Return_iff)
  note p = insertImpl_post [OF wfa Append_ilist_Return [OF wfa x]]
  have n: "unat (word_of_nat (length il) :: size_t) = length il"
    using ok Op_Append_ilist by (simp add: ilist_count)
  show ?thesis using Op_Append_ilist rr p(3) p(4) unfolding n
    by (simp add: comp_def length_elems [OF wfa, symmetric])
next
  case (Op_Append_range ptr cnt)
  then obtain x where x: "Append_range avail a ptr cnt = Return x a'" and rr: "r = R_unit"
    using r by (auto simp: returning_Return_iff)
  note p = insertImpl_post [OF wfa Append_range_Return [OF wfa x]]
  show ?thesis using Op_Append_range rr p(3) p(4)
    by (simp add: length_elems [OF wfa, symmetric])
next
  case Op_Clear
  then show ?thesis using r by (auto simp: returning_Return_iff dest: Clear_Return [OF wfa])
next
  case (Op_Contains v)
  have "length (elems a) \<le> PTRDIFF_MAX"
    using well_formed_count_bound [OF wfa] by (simp add: length_elems [OF wfa])
  from first_match_sentinel [OF this, of "\<lambda>x. x = v"]
  show ?thesis using Op_Contains r
    by (auto simp: returning_Return_iff Contains_def Find_post [OF wfa])
next
  case (Op_ContainsIf pred)
  have "length (elems a) \<le> PTRDIFF_MAX"
    using well_formed_count_bound [OF wfa] by (simp add: length_elems [OF wfa])
  from first_match_sentinel [OF this, of pred]
  show ?thesis using Op_ContainsIf r
    by (auto simp: returning_Return_iff ContainsIf_def FindIf_post [OF wfa])
next
  case (Op_Find v)
  then show ?thesis using r by (auto simp: returning_Return_iff Find_post [OF wfa])
next
  case (Op_FindIf pred)
  then show ?thesis using r by (auto simp: returning_Return_iff FindIf_post [OF wfa])
next
  case (Op_FindLast v)
  then show ?thesis using r
    by (auto simp: returning_Return_iff FindLast_FindLastIf FindLastIf_post [OF wfa])
next
  case (Op_FindLastIf pred)
  then show ?thesis using r by (auto simp: returning_Return_iff FindLastIf_post [OF wfa])
next
  case (Op_RemoveAt i)
  then show ?thesis using r by (auto simp: returning_Return_iff dest: RemoveAt_Return [OF wfa])
next
  case (Op_Remove v)
  then show ?thesis using r by (auto simp: returning_Return_iff dest: Remove_Return [OF wfa])
next
  case (Op_RemoveAll pred)
  then obtain x where x: "RemoveAll a pred = Return x a'" and rr: "r = R_index x"
    using r by (auto simp: returning_Return_iff)
  note p = RemoveAll_Return [OF wfa x]
  show ?thesis using Op_RemoveAll rr p(2) p(4) removed_count [OF p(3)] by simp
next
  case (Op_Reserve n)
  then obtain x where x: "Reserve avail a n = Return x a'" and rr: "r = R_unit"
    using r by (auto simp: returning_Return_iff)
  note p = Reserve_Return [OF wfa x]
  show ?thesis using Op_Reserve rr p(2) p(4) by (auto simp: word_less_nat_alt max_def)
next
  case (Op_Resize n v)
  then obtain x where x: "Resize avail a n v = Return x a'" and rr: "r = R_unit"
    using r by (auto simp: returning_Return_iff)
  note p = Resize_Return [OF wfa x]
  show ?thesis using Op_Resize rr p(2) p(4) grows_word [OF well_formed_cap_bound [OF wfa], of n]
    by (simp add: length_elems [OF wfa])
next
  case Op_Shrink
  then obtain x where x: "Shrink avail a = Return x a'" and rr: "r = R_unit"
    using r by (auto simp: returning_Return_iff)
  note p = Shrink_Return [OF wfa x]
  show ?thesis using Op_Shrink rr p(2) p(4) by (simp add: length_elems [OF wfa])
next
  case (Op_Sort cmp)
  then obtain x where x: "Sort a cmp = Return x a'" and rr: "r = R_unit"
    using r by (auto simp: returning_Return_iff)
  note p = Sort_Return [OF wfa x]
  have "sorted_wrt (\<lambda>x y. \<not> cmp y x) (foldr (insert_by cmp) (elems a) [])"
    by (rule sorted_foldr_insert_by [OF p(4)]) simp
  then show ?thesis using Op_Sort rr p(2) p(3) by simp
next
  case (Op_assign_ilist il)
  then obtain x where x: "assign_ilist avail a il = Return x a'" and rr: "r = R_unit"
    using r by (auto simp: returning_Return_iff)
  note p = assign_ilist_Return [OF wfa x]
  show ?thesis using Op_assign_ilist rr p(2) p(3) p(4) by simp
qed

lemma Insert_array_post:
  assumes wfa: "well_formed a" and wfo: "well_formed other"
    and r: "insertImpl avail a i (mem other) (mCount other) = Return r a'"
  shows "r = i" and "elems a' = take (unat i) (elems a) @ elems other @ drop (unat i) (elems a)"
proof -
  note p = insertImpl_Return [OF wfa r]
  show "r = i" by (rule p)
  show "elems a' = take (unat i) (elems a) @ elems other @ drop (unat i) (elems a)"
    using p(4) read_n_elems [OF wfo] by auto
qed

lemma exec2_post:
  assumes wfa: "well_formed a" and wfo: "well_formed other"
    and r: "exec2 avail op' (a, other) = Return r (a', other')"
  shows "post2 op' (elems a) (elems other) r (elems a') (elems other')"
proof (cases op')
  case (Op_Insert_array i)
  then show ?thesis using r
    by (auto simp: reading_Return_iff Insert_array_def dest: Insert_array_post [OF wfa wfo])
next
  case (Op_Insert_move i)
  then obtain x where x: "Insert_move avail (a, other) i = Return x (a', other')" and rr: "r = R_index x"
    using r by (auto simp: returning_Return_iff)
  note p = Insert_move_Return [OF wfa wfo x]
  show ?thesis using Op_Insert_move rr p(1) p(5) p(7) by simp
next
  case Op_Append_array
  then obtain x where x: "Append_array avail a other = Return x a'" and rr: "r = R_unit"
    and o: "other' = other"
    using r by (auto simp: reading_Return_iff)
  note p = Insert_array_post [OF wfa wfo Append_array_Return [OF wfa x]]
  show ?thesis using Op_Append_array rr o p(2) by (simp add: length_elems [OF wfa, symmetric])
next
  case Op_Append_move
  then obtain x where x: "Append_move avail (a, other) = Return x (a', other')" and rr: "r = R_unit"
    using r by (auto simp: returning_Return_iff)
  note p = Insert_move_Return [OF wfa wfo Append_move_Return [OF wfa x]]
  show ?thesis using Op_Append_move rr p(5) p(7) by (simp add: length_elems [OF wfa, symmetric])
next
  case Op_assign_copy
  then show ?thesis using r
    by (auto simp: reading_Return_iff dest: assign_copy_Return [OF wfa wfo])
next
  case Op_assign_move
  then show ?thesis using r
    by (auto simp: returning_Return_iff assign_move_well_formed [OF wfa] elems_null)
next
  case Op_Swap
  then show ?thesis using r by (auto simp: Swap_eq)
qed

lemma insertImpl_total:
  assumes wfa: "well_formed a" and i: "i \<le> mCount a"
    and rd: "read_n ptr 0 (unat cnt) = Some vs"
    and tail: "i < mCount a \<longrightarrow> unat cnt \<le> unat (mCount a) - unat i"
    and sum: "unat (mCount a) + unat cnt \<le> PTRDIFF_MAX"
  shows "insertImpl avail a i ptr cnt = Raise BadAlloc a \<or>
         (\<exists>a'. insertImpl avail a i ptr cnt = Return i a')"
proof (cases "cnt = 0")
  case True
  have iu: "unat i \<le> unat (mCount a)" using i by (simp add: word_le_nat_alt)
  then have chk: "\<not> mCount a + 1 \<le> i" using checkRange_end [OF wfa, of i] by simp
  show ?thesis using True chk by (simp add: insertImpl_def checkRange_True)
next
  case False
  then have pos: "0 < unat cnt" by (simp add: unat_gt_0)
  have iu: "unat i \<le> unat (mCount a)" using i by (simp add: word_le_nat_alt)
  then have chk: "\<not> mCount a + 1 \<le> i" using checkRange_end [OF wfa, of i] by simp
  have lv: "length vs = unat cnt" using read_n_bounds [OF rd] by simp
  have s: "unat (mCount a + cnt) = unat (mCount a) + unat cnt" by (rule unat_add_bounded [OF sum])
  show ?thesis
  proof (rule ensureCapacity_cases [OF wfa, of avail "mCount a + cnt"])
    assume "ensureCapacity avail a (mCount a + cnt) = Raise BadAlloc a"
    then show ?thesis using chk False by (simp add: insertImpl_def checkRange_True)
  next
    fix a2 assume ens: "ensureCapacity avail a (mCount a + cnt) = Return () a2"
    note e = ensureCapacity_Return [OF wfa ens]
    have i2: "unat i \<le> unat (mCount a2)" using iu e(3) by simp
    have room: "unat (mCount a2) + unat cnt \<le> unat (mCapacity a2)"
      using e(4) s e(3) by (simp add: word_le_nat_alt)
    have tail2: "i < mCount a2 \<longrightarrow> unat cnt \<le> unat (mCount a2) - unat i"
      using tail e(3) by simp
    from insert_tail_ok [OF e(1) i2 lv pos room tail2]
    obtain b b' where sh: "(if i < mCount a2 then
                (case uninitialized_move_n (mem a2) (uint (mCount a2) - int (unat cnt)) (unat cnt) (mem a2) (uint (mCount a2)) of
                   None \<Rightarrow> None
                 | Some b \<Rightarrow> move_backward b (uint i) (uint (mCount a2) - int (unat cnt)) (uint (mCount a2)))
              else Some (mem a2)) = Some b" and w: "write_n b (uint i) vs = Some b'"
      by (elim exE conjE) (rule that)
    have sh1: "(if i < mCount a2 then
                (case uninitialized_move_n (mem a2) (uint (mCount a2) - uint cnt) (unat cnt) (mem a2) (uint (mCount a2)) of
                   None \<Rightarrow> None
                 | Some b \<Rightarrow> move_backward b (uint i) (uint (mCount a2) - uint cnt) (uint (mCount a2)))
              else Some (mem a2)) = Some b"
      using sh by (simp only: uint_nat)
    have cp: "uninitialized_copy_n ptr 0 (unat cnt) b (uint i) = Some b'"
      by (simp only: uninitialized_copy_n_def rd option.case w)
    have "insertImpl avail a i ptr cnt = Return i ((store a2 b')\<lparr>mCount := mCount a2 + cnt\<rparr>)"
      by (simp only: insertImpl_def checkRange_True chk if_False andThen_simps False ens sh1
            defined_simps cp)
    then show ?thesis by blast
  qed
qed

lemma insertImpl_no_Return:
  assumes wfa: "well_formed a" and lt: "i < mCount a"
    and big: "unat (mCount a) - unat i < unat cnt"
  shows "insertImpl avail a i ptr cnt = Undefined \<or> insertImpl avail a i ptr cnt = Raise BadAlloc a"
proof (cases "insertImpl avail a i ptr cnt")
  case (Return r a')
  from insertImpl_Return(7) [OF wfa Return] lt big show ?thesis by simp
next
  case (Raise e s)
  have "\<not> mCount a + 1 \<le> i"
    using lt checkRange_end [OF wfa, of i] by (simp add: word_less_nat_alt)
  with insertImpl_Raise [OF Raise] have "s = a" "e \<noteq> IndexOutOfRange" by simp_all
  then show ?thesis using Raise by (cases e) simp_all
next
  case Undefined
  then show ?thesis by simp
qed

lemma past_end: "well_formed a \<Longrightarrow> mCount a + 1 \<le> i \<longleftrightarrow> mCount a < i"
  by (simp add: checkRange_end word_less_nat_alt)

lemma subscript_IndexOutOfRange:
  "(\<exists>s. subscript a i = Raise IndexOutOfRange s) \<longleftrightarrow> mCount a \<le> i"
  by (auto simp: subscript_def checkRange_False andThen_Raise_iff defined_Raise_iff)

lemma subscript_assign_IndexOutOfRange:
  "(\<exists>s. subscript_assign a i v = Raise IndexOutOfRange s) \<longleftrightarrow> mCount a \<le> i"
  by (auto simp: subscript_assign_def checkRange_False andThen_Raise_iff defined_Raise_iff)

lemma RemoveAt_IndexOutOfRange:
  "(\<exists>s. RemoveAt a i = Raise IndexOutOfRange s) \<longleftrightarrow> mCount a \<le> i"
  by (auto simp: RemoveAt_def checkRange_False andThen_Raise_iff defined_Raise_iff)

lemma EmplaceAt_IndexOutOfRange:
  "(\<exists>s. EmplaceAt avail a i v = Raise IndexOutOfRange s) \<longleftrightarrow> mCount a + 1 \<le> i"
proof
  assume "\<exists>s. EmplaceAt avail a i v = Raise IndexOutOfRange s"
  then obtain s where "EmplaceAt avail a i v = Raise IndexOutOfRange s" ..
  from EmplaceAt_Raise(2) [OF this] show "mCount a + 1 \<le> i" by simp
next
  assume "mCount a + 1 \<le> i"
  then have "checkRange a i True = Raise IndexOutOfRange a" by (simp add: checkRange_True)
  then have "EmplaceAt avail a i v = Raise IndexOutOfRange a"
    unfolding EmplaceAt_def by (simp only: andThen_simps)
  then show "\<exists>s. EmplaceAt avail a i v = Raise IndexOutOfRange s" ..
qed

lemma insertImpl_IndexOutOfRange:
  "(\<exists>s. insertImpl avail a i ptr cnt = Raise IndexOutOfRange s) \<longleftrightarrow> mCount a + 1 \<le> i"
proof
  assume "\<exists>s. insertImpl avail a i ptr cnt = Raise IndexOutOfRange s"
  then obtain s where "insertImpl avail a i ptr cnt = Raise IndexOutOfRange s" ..
  from insertImpl_Raise(2) [OF this] show "mCount a + 1 \<le> i" by simp
next
  assume "mCount a + 1 \<le> i"
  then show "\<exists>s. insertImpl avail a i ptr cnt = Raise IndexOutOfRange s"
    by (simp add: insertImpl_def checkRange_True)
qed

lemma Insert_move_IndexOutOfRange:
  "(\<exists>st. Insert_move avail (a, other) i = Raise IndexOutOfRange st) \<longleftrightarrow> mCount a + 1 \<le> i"
proof
  assume "\<exists>st. Insert_move avail (a, other) i = Raise IndexOutOfRange st"
  then obtain st where st: "Insert_move avail (a, other) i = Raise IndexOutOfRange st" ..
  have "\<exists>s. insertImpl avail a i (mem other) (mCount other) = Raise IndexOutOfRange s"
  proof (cases "insertImpl avail a i (mem other) (mCount other)")
    case (Return r b)
    with st show ?thesis
      by (cases "Clear other") (simp_all add: Insert_move_def Clear_not_Raise)
  next
    case (Raise e b)
    with st show ?thesis by (simp add: Insert_move_def)
  next
    case Undefined
    with st show ?thesis by (simp add: Insert_move_def)
  qed
  then obtain s where "insertImpl avail a i (mem other) (mCount other) = Raise IndexOutOfRange s" ..
  from insertImpl_Raise(2) [OF this] show "mCount a + 1 \<le> i" by simp
next
  assume "mCount a + 1 \<le> i"
  then have "insertImpl avail a i (mem other) (mCount other) = Raise IndexOutOfRange a"
    by (simp add: insertImpl_def checkRange_True)
  then show "\<exists>st. Insert_move avail (a, other) i = Raise IndexOutOfRange st"
    by (simp add: Insert_move_def)
qed

lemma last_match_props:
  assumes ex: "\<exists>x \<in> set xs. pred x"
  defines "k \<equiv> length xs - 1 - length (takeWhile (\<lambda>x. \<not> pred x) (rev xs))"
  shows "k < length xs" and "pred (xs ! k)"
    and "\<forall>m. k < m \<and> m < length xs \<longrightarrow> \<not> pred (xs ! m)"
proof -
  define n where "n = length (takeWhile (\<lambda>x. \<not> pred x) (rev xs))"
  have k: "k = length xs - 1 - n" by (simp add: k_def n_def)
  have "takeWhile (\<lambda>x. \<not> pred x) (rev xs) \<noteq> rev xs"
    using ex by (simp add: takeWhile_eq_all_conv)
  moreover have "n \<le> length (rev xs)" unfolding n_def by (rule length_takeWhile_le)
  ultimately have n: "n < length xs"
    unfolding n_def using takeWhile_eq_take [of "\<lambda>x. \<not> pred x" "rev xs"]
    by (cases "length (takeWhile (\<lambda>x. \<not> pred x) (rev xs)) = length (rev xs)") auto
  then show kl: "k < length xs" by (simp add: k)
  have "\<not> \<not> pred (rev xs ! n)"
    unfolding n_def by (rule nth_length_takeWhile) (use n in \<open>simp add: n_def\<close>)
  moreover have "rev xs ! n = xs ! k" using n by (simp add: rev_nth k)
  ultimately show "pred (xs ! k)" by simp
  show "\<forall>m. k < m \<and> m < length xs \<longrightarrow> \<not> pred (xs ! m)"
  proof (intro allI impI)
    fix m assume m: "k < m \<and> m < length xs"
    define q where "q = length xs - 1 - m"
    have q: "q < n" using m n unfolding q_def k by arith
    have "takeWhile (\<lambda>x. \<not> pred x) (rev xs) ! q = rev xs ! q"
      by (rule takeWhile_nth) (use q in \<open>simp add: n_def\<close>)
    moreover have "takeWhile (\<lambda>x. \<not> pred x) (rev xs) ! q \<in> set (takeWhile (\<lambda>x. \<not> pred x) (rev xs))"
      by (rule nth_mem) (use q in \<open>simp add: n_def\<close>)
    ultimately have "\<not> pred (rev xs ! q)" by (auto dest: set_takeWhileD)
    moreover have "rev xs ! q = xs ! m"
    proof -
      have "q < length xs" and "length xs - Suc q = m" using m unfolding q_def by arith+
      then show ?thesis by (simp add: rev_nth)
    qed
    ultimately show "\<not> pred (xs ! m)" by simp
  qed
qed

lemma FindLast_Return:
  assumes wfa: "well_formed a"
  shows "v \<in> set (elems a) \<Longrightarrow>
           \<exists>k. FindLast a v = Return (word_of_nat k) a \<and> k < length (elems a) \<and> elems a ! k = v \<and>
               (\<forall>m. k < m \<and> m < length (elems a) \<longrightarrow> elems a ! m \<noteq> v) \<and>
               (word_of_nat k :: size_t) \<noteq> INDEX_NONE \<and> unat (word_of_nat k :: size_t) = k"
    and "v \<notin> set (elems a) \<Longrightarrow> FindLast a v = Return INDEX_NONE a"
proof -
  have f: "FindLast a v = Return (last_match (\<lambda>x. x = v) (elems a)) a"
    by (simp only: FindLast_FindLastIf FindLastIf_post [OF wfa])
  have bound: "length (elems a) \<le> PTRDIFF_MAX"
    using well_formed_count_bound [OF wfa] by (simp add: length_elems [OF wfa])
  {
    assume "v \<notin> set (elems a)"
    then show "FindLast a v = Return INDEX_NONE a" by (simp add: f last_match_def)
  }
  {
    assume v: "v \<in> set (elems a)"
    then have ex: "\<exists>x \<in> set (elems a). x = v" by simp
    define k where "k = length (elems a) - 1 - length (takeWhile (\<lambda>x. \<not> x = v) (rev (elems a)))"
    note p = last_match_props [OF ex, folded k_def]
    have "k \<le> PTRDIFF_MAX" using p(1) bound by simp
    note s = index_not_sentinel [OF this]
    have "FindLast a v = Return (word_of_nat k) a" using ex by (simp add: f last_match_def k_def)
    with p s show "\<exists>k. FindLast a v = Return (word_of_nat k) a \<and> k < length (elems a) \<and> elems a ! k = v \<and>
               (\<forall>m. k < m \<and> m < length (elems a) \<longrightarrow> elems a ! m \<noteq> v) \<and>
               (word_of_nat k :: size_t) \<noteq> INDEX_NONE \<and> unat (word_of_nat k :: size_t) = k"
      by blast
  }
qed

lemma Find_inserted:
  assumes wfa: "well_formed a" and absent: "v \<notin> set (elems a)"
    and r: "EmplaceAt avail a p v = Return r a'"
  shows "Find a' v = Return p a'"
proof -
  note e = EmplaceAt_Return [OF wfa r]
  have pl: "unat p \<le> length (elems a)"
    using e(2) by (simp add: length_elems [OF wfa] word_le_nat_alt)
  have "v \<in> set (elems a')" by (simp add: e(4))
  from Find_Return(1) [OF e(3) this] obtain j where
    j: "Find a' v = Return (word_of_nat j) a'" "j = length (takeWhile (\<lambda>x. x \<noteq> v) (elems a'))"
    by blast
  have "\<forall>x \<in> set (take (unat p) (elems a)). x \<noteq> v"
    using absent by (auto dest: in_set_takeD)
  then have "takeWhile (\<lambda>x. x \<noteq> v) (elems a') = take (unat p) (elems a)"
    unfolding e(4) by (simp add: takeWhile_append2)
  then have "j = unat p" using pl by (simp add: j(2))
  then show ?thesis using j(1) by simp
qed

lemma INDEX_NONE_max: "unat INDEX_NONE = 2 ^ 64 - 1" "i \<le> INDEX_NONE"
  by (simp_all add: INDEX_NONE_def unsigned_minus_1_eq_mask mask_eq_exp_minus_1)

section \<open>The claims\<close>

text \<open>
  Claim C1 (insertion at an index shifts the tail right by the inserted length and puts the
  inserted sequence at the index) does not hold of the bulk insertion. \<open>insertImpl\<close>
  moves the last \<open>count\<close> elements with
  \<open>std::uninitialized_move_n(mData + mCount - count, count, mData + mCount)\<close> and the rest
  with \<open>std::move_backward(mData + index, mData + mCount - count, mData + mCount)\<close>, which
  is right only while \<open>count \<le> mCount - index\<close>. Inserting the two elements \<open>{7, 8}\<close> at
  index 0 of the array \<open>{1}\<close> reads from \<open>mData - 1\<close>, before the buffer; inserting them
  at index 2 of \<open>{1, 2, 3}\<close> calls \<open>std::move_backward\<close> on the inverted range
  \<open>[mData + 2, mData + 1)\<close>. Both are undefined behaviour; the claim promises
  \<open>{7, 8, 1}\<close> and \<open>{1, 2, 7, 8, 3}\<close>.
\<close>

theorem Insert_bulk_longer_than_tail_undefined:
  "Array_ilist (\<lambda>_. True) [1 :: int] = Return \<lparr>mData = Some [Some 1], mCount = 1, mCapacity = 1\<rparr> () \<and>
   Insert_ilist (\<lambda>_. True) \<lparr>mData = Some [Some 1], mCount = 1, mCapacity = 1\<rparr> 0 [7, 8 :: int] = Undefined \<and>
   Array_ilist (\<lambda>_. True) [1, 2, 3 :: int]
     = Return \<lparr>mData = Some [Some 1, Some 2, Some 3], mCount = 3, mCapacity = 3\<rparr> () \<and>
   Insert_ilist (\<lambda>_. True) \<lparr>mData = Some [Some 1, Some 2, Some 3], mCount = 3, mCapacity = 3\<rparr> 2 [7, 8 :: int]
     = Undefined"
  by (simp add: eval_defs)

text \<open>
  Claim C5 (the insertion from an rvalue array puts the source's elements at the index of
  the target and leaves the source with count 0) does not hold either, by the same defect
  of \<open>insertImpl\<close>: draining the source \<open>{7, 8}\<close> into the target \<open>{1}\<close> at index 0 is
  undefined behaviour, where the claim promises the target \<open>{7, 8, 1}\<close> and an empty
  source.
\<close>

theorem Insert_move_longer_than_tail_undefined:
  "Insert_move (\<lambda>_. True)
     (\<lparr>mData = Some [Some (1 :: int)], mCount = 1, mCapacity = 1\<rparr>,
      \<lparr>mData = Some [Some 7, Some 8], mCount = 2, mCapacity = 2\<rparr>) 0 = Undefined"
  by (simp add: eval_defs)

text \<open>
  Claim C6: after a move from the array \<open>a\<close>, by the move constructor or by the move
  assignment into another (well-formed) array \<open>t\<close>, the source has count 0, capacity 0 and
  a null buffer pointer, and the destination has \<open>a\<close>'s buffer, count and capacity, hence
  \<open>a\<close>'s elements in their order.
\<close>

theorem move_transfers_buffer:
  "(case Array_move a of (d, s) \<Rightarrow>
      mCount s = 0 \<and> mCapacity s = 0 \<and> mData s = None \<and>
      d = a \<and> elems d = elems a \<and> mCount d = mCount a) \<and>
   (well_formed t \<longrightarrow>
      (\<exists>d s. assign_move (t, a) = Return () (d, s) \<and>
         mCount s = 0 \<and> mCapacity s = 0 \<and> mData s = None \<and>
         d = a \<and> elems d = elems a \<and> mCount d = mCount a))"
  by (simp add: Array_move_def assign_move_def cleanup_well_formed Array_eta)

theorem move_transfers_buffer_witness:
  "well_formed \<lparr>mData = Some [Some (5 :: int), None], mCount = 1, mCapacity = 2\<rparr> \<and>
   (\<exists>d s. assign_move (\<lparr>mData = Some [Some (5 :: int), None], mCount = 1, mCapacity = 2\<rparr>,
                \<lparr>mData = Some [Some 1, Some 2], mCount = 2, mCapacity = 2\<rparr>) = Return () (d, s) \<and>
      mCount s = 0 \<and> mCapacity s = 0 \<and> mData s = None \<and>
      d = \<lparr>mData = Some [Some 1, Some 2], mCount = 2, mCapacity = 2\<rparr> \<and> elems d = [1, 2])"
proof -
  have w: "well_formed \<lparr>mData = Some [Some (5 :: int), None], mCount = 1, mCapacity = 2\<rparr>"
    by (simp add: well_formed_def mem_def PTRDIFF_MAX_def)
  have e: "elems \<lparr>mData = Some [Some (1 :: int), Some 2], mCount = 2, mCapacity = 2\<rparr> = [1, 2]"
    by (simp add: elems_def mem_def)
  from move_transfers_buffer
    [of "\<lparr>mData = Some [Some (1 :: int), Some 2], mCount = 2, mCapacity = 2\<rparr>"
        "\<lparr>mData = Some [Some 5, None], mCount = 1, mCapacity = 2\<rparr>"] w e
  show ?thesis by simp
qed

text \<open>
  Claim C3: \<open>IndexOutOfRange\<close> is raised exactly when the index is outside the bound of
  the operation. For every (well-formed) array and every index \<open>i\<close>, element access
  (\<open>operator[]\<close>, read or written through) and \<open>RemoveAt\<close> raise it if and only if
  \<open>i \<ge> count\<close>, and every insertion (\<open>EmplaceAt\<close>, the \<open>Insert\<close> overloads and
  \<open>insertImpl\<close> under them) raises it if and only if \<open>i > count\<close>.
\<close>

theorem IndexOutOfRange_iff:
  assumes "well_formed a"
  shows "((\<exists>s. subscript a i = Raise IndexOutOfRange s) \<longleftrightarrow> i \<ge> mCount a) \<and>
         ((\<exists>s. subscript_assign a i v = Raise IndexOutOfRange s) \<longleftrightarrow> i \<ge> mCount a) \<and>
         ((\<exists>s. RemoveAt a i = Raise IndexOutOfRange s) \<longleftrightarrow> i \<ge> mCount a) \<and>
         ((\<exists>s. EmplaceAt avail a i v = Raise IndexOutOfRange s) \<longleftrightarrow> i > mCount a) \<and>
         ((\<exists>s. Insert_value avail a i v = Raise IndexOutOfRange s) \<longleftrightarrow> i > mCount a) \<and>
         ((\<exists>s. Insert_array avail a i other = Raise IndexOutOfRange s) \<longleftrightarrow> i > mCount a) \<and>
         ((\<exists>st. Insert_move avail (a, other) i = Raise IndexOutOfRange st) \<longleftrightarrow> i > mCount a) \<and>
         ((\<exists>s. Insert_ilist avail a i il = Raise IndexOutOfRange s) \<longleftrightarrow> i > mCount a) \<and>
         ((\<exists>s. Insert_range avail a i ptr cnt = Raise IndexOutOfRange s) \<longleftrightarrow> i > mCount a)"
  unfolding subscript_IndexOutOfRange subscript_assign_IndexOutOfRange RemoveAt_IndexOutOfRange
    EmplaceAt_IndexOutOfRange Insert_value_def Insert_array_def Insert_ilist_def Insert_range_def
    insertImpl_IndexOutOfRange Insert_move_IndexOutOfRange past_end [OF assms]
  by simp

theorem IndexOutOfRange_iff_witness:
  "well_formed \<lparr>mData = Some [Some (1 :: int), Some 2, None], mCount = 2, mCapacity = 3\<rparr> \<and>
   subscript \<lparr>mData = Some [Some (1 :: int), Some 2, None], mCount = 2, mCapacity = 3\<rparr> 1
     = Return 2 \<lparr>mData = Some [Some 1, Some 2, None], mCount = 2, mCapacity = 3\<rparr> \<and>
   (\<exists>s. subscript \<lparr>mData = Some [Some (1 :: int), Some 2, None], mCount = 2, mCapacity = 3\<rparr> 2
     = Raise IndexOutOfRange s) \<and>
   \<not> (\<exists>s. EmplaceAt (\<lambda>_. True) \<lparr>mData = Some [Some (1 :: int), Some 2, None], mCount = 2, mCapacity = 3\<rparr> 2 5
     = Raise IndexOutOfRange s) \<and>
   (\<exists>s. EmplaceAt (\<lambda>_. True) \<lparr>mData = Some [Some (1 :: int), Some 2, None], mCount = 2, mCapacity = 3\<rparr> 3 5
     = Raise IndexOutOfRange s)"
proof -
  let ?a = "\<lparr>mData = Some [Some (1 :: int), Some 2, None], mCount = 2, mCapacity = 3\<rparr>"
  have w: "well_formed ?a" by (simp add: well_formed_def mem_def PTRDIFF_MAX_def)
  have s: "subscript ?a 1 = Return 2 ?a"
    by (simp add: subscript_def checkRange_def deref_def mem_def word_le_nat_alt)
  note t2 = IndexOutOfRange_iff [OF w, where i = 2 and v = 5 and avail = "\<lambda>_. True"]
  note t3 = IndexOutOfRange_iff [OF w, where i = 3 and v = 5 and avail = "\<lambda>_. True"]
  have c1: "\<exists>s. subscript ?a 2 = Raise IndexOutOfRange s"
    using conjunct1 [OF t2] by simp
  have c2: "\<not> (\<exists>s. EmplaceAt (\<lambda>_. True) ?a 2 5 = Raise IndexOutOfRange s)"
    using conjunct1 [OF conjunct2 [OF conjunct2 [OF conjunct2 [OF t2]]]] by simp
  have c3: "\<exists>s. EmplaceAt (\<lambda>_. True) ?a 3 5 = Raise IndexOutOfRange s"
    using conjunct1 [OF conjunct2 [OF conjunct2 [OF conjunct2 [OF t3]]]] by simp
  from w s c1 c2 c3 show ?thesis by blast
qed

text \<open>
  Claim C8: \<open>Shrink\<close> is a no-op when the capacity does not exceed the count; when it does
  and \<open>Shrink\<close> returns, the capacity is exactly the count and the elements are the same;
  a second \<open>Shrink\<close> then returns the same state without asking the allocator for
  anything (it returns it whatever the allocator would answer). \<open>Shrink\<close> returns unless
  the one allocation fails, and then the array is unchanged.
\<close>

theorem Shrink_exact_idempotent:
  assumes "well_formed a"
  shows "(mCapacity a \<le> mCount a \<longrightarrow> Shrink avail a = Return () a) \<and>
         (Shrink avail a = Return u a' \<longrightarrow>
            mCapacity a' = mCount a \<and> mCount a' = mCount a \<and> elems a' = elems a \<and>
            (\<forall>avail'. Shrink avail' a' = Return () a')) \<and>
         (mCount a = 0 \<or> avail (unat (mCount a)) \<longrightarrow> (\<exists>a''. Shrink avail a = Return () a'')) \<and>
         (Shrink avail a = Raise e s \<longrightarrow> e = BadAlloc \<and> s = a \<and> mCount a < mCapacity a) \<and>
         Shrink avail a \<noteq> Undefined"
proof (intro conjI impI)
  have le: "mCount a \<le> mCapacity a" using assms by (simp add: well_formed_def)
  {
    assume "mCapacity a \<le> mCount a"
    with le have "mCapacity a = mCount a" by simp
    then show "Shrink avail a = Return () a" by (rule Shrink_tight)
  }
  {
    assume r: "Shrink avail a = Return u a'"
    note p = Shrink_Return [OF assms r]
    show "mCapacity a' = mCount a" "mCount a' = mCount a" "elems a' = elems a" by (rule p)+
    have "mCapacity a' = mCount a'" using p(3,4) by simp
    then show "\<forall>avail'. Shrink avail' a' = Return () a'" by (simp add: Shrink_tight)
  }
  {
    assume "mCount a = 0 \<or> avail (unat (mCount a))"
    then show "\<exists>a''. Shrink avail a = Return () a''"
      unfolding Shrink_well_formed [OF assms] by auto
  }
  {
    assume r: "Shrink avail a = Raise e s"
    then show "e = BadAlloc" "s = a" using Shrink_Raise by blast+
    show "mCount a < mCapacity a" using r by (auto simp: Shrink_def split: if_splits)
  }
  show "Shrink avail a \<noteq> Undefined" unfolding Shrink_well_formed [OF assms] by simp
qed

theorem Shrink_exact_idempotent_witness:
  "well_formed \<lparr>mData = Some [Some (1 :: int), Some 2, None], mCount = 2, mCapacity = 3\<rparr> \<and>
   Shrink (\<lambda>_. True) \<lparr>mData = Some [Some (1 :: int), Some 2, None], mCount = 2, mCapacity = 3\<rparr>
     = Return () \<lparr>mData = Some [Some 1, Some 2], mCount = 2, mCapacity = 2\<rparr> \<and>
   (\<forall>avail'. Shrink avail' \<lparr>mData = Some [Some (1 :: int), Some 2], mCount = 2, mCapacity = 2\<rparr>
     = Return () \<lparr>mData = Some [Some 1, Some 2], mCount = 2, mCapacity = 2\<rparr>)"
proof -
  let ?a = "\<lparr>mData = Some [Some (1 :: int), Some 2, None], mCount = 2, mCapacity = 3\<rparr>"
  let ?a' = "\<lparr>mData = Some [Some (1 :: int), Some 2], mCount = 2, mCapacity = 2\<rparr>"
  have w: "well_formed ?a" by (simp add: well_formed_def mem_def PTRDIFF_MAX_def)
  have s: "Shrink (\<lambda>_. True) ?a = Return () ?a'"
    by (simp add: Shrink_def reallocate_def operator_new_def PTRDIFF_MAX_def
        uninitialized_move_n_def read_n_def write_n_def in_bounds_def destroy_n_def)
  from Shrink_exact_idempotent [OF w, of "\<lambda>_. True" "()" ?a'] w s
  show ?thesis by simp
qed

text \<open>
  Claim C9: on every (well-formed) array and for every value, if some element equals the
  value then \<open>Find\<close> returns the smallest index holding it and \<open>FindLast\<close> the largest,
  and neither is the sentinel; if no element equals it, both return the sentinel
  \<open>INDEX_NONE\<close>, which is the largest value of \<open>size_t\<close>. Both always return, never
  throw, and leave the array as it was. If the value is absent and an insertion of it at
  position \<open>p\<close> returns, \<open>Find\<close> on the resulting array returns \<open>p\<close>.
\<close>

theorem Find_FindLast_index_or_sentinel:
  assumes "well_formed a"
  shows "(v \<in> set (elems a) \<longrightarrow>
            (\<exists>j k. Find a v = Return (word_of_nat j) a \<and> FindLast a v = Return (word_of_nat k) a \<and>
               j < length (elems a) \<and> elems a ! j = v \<and> (\<forall>m<j. elems a ! m \<noteq> v) \<and>
               k < length (elems a) \<and> elems a ! k = v \<and>
               (\<forall>m. k < m \<and> m < length (elems a) \<longrightarrow> elems a ! m \<noteq> v) \<and>
               unat (word_of_nat j :: size_t) = j \<and> unat (word_of_nat k :: size_t) = k \<and>
               (word_of_nat j :: size_t) \<noteq> INDEX_NONE \<and> (word_of_nat k :: size_t) \<noteq> INDEX_NONE)) \<and>
         (v \<notin> set (elems a) \<longrightarrow> Find a v = Return INDEX_NONE a \<and> FindLast a v = Return INDEX_NONE a) \<and>
         unat INDEX_NONE = 2 ^ 64 - 1 \<and> (\<forall>i. i \<le> INDEX_NONE) \<and>
         (v \<notin> set (elems a) \<and> Insert_value avail a p v = Return r a' \<longrightarrow> Find a' v = Return p a')"
proof (intro conjI impI allI)
  {
    assume v: "v \<in> set (elems a)"
    from Find_Return(1) [OF assms v] obtain j where
      j: "Find a v = Return (word_of_nat j) a" "j < length (elems a)" "elems a ! j = v"
         "\<forall>m<j. elems a ! m \<noteq> v" "(word_of_nat j :: size_t) \<noteq> INDEX_NONE"
         "unat (word_of_nat j :: size_t) = j"
      by blast
    from FindLast_Return(1) [OF assms v] obtain k where
      k: "FindLast a v = Return (word_of_nat k) a" "k < length (elems a)" "elems a ! k = v"
         "\<forall>m. k < m \<and> m < length (elems a) \<longrightarrow> elems a ! m \<noteq> v"
         "(word_of_nat k :: size_t) \<noteq> INDEX_NONE" "unat (word_of_nat k :: size_t) = k"
      by blast
    from j k show "\<exists>j k. Find a v = Return (word_of_nat j) a \<and> FindLast a v = Return (word_of_nat k) a \<and>
               j < length (elems a) \<and> elems a ! j = v \<and> (\<forall>m<j. elems a ! m \<noteq> v) \<and>
               k < length (elems a) \<and> elems a ! k = v \<and>
               (\<forall>m. k < m \<and> m < length (elems a) \<longrightarrow> elems a ! m \<noteq> v) \<and>
               unat (word_of_nat j :: size_t) = j \<and> unat (word_of_nat k :: size_t) = k \<and>
               (word_of_nat j :: size_t) \<noteq> INDEX_NONE \<and> (word_of_nat k :: size_t) \<noteq> INDEX_NONE"
      by (intro exI [of _ j] exI [of _ k] conjI)
  }
  {
    assume v: "v \<notin> set (elems a)"
    show "Find a v = Return INDEX_NONE a" by (rule Find_Return(2) [OF assms v])
    show "FindLast a v = Return INDEX_NONE a" by (rule FindLast_Return(2) [OF assms v])
  }
  show "unat INDEX_NONE = 2 ^ 64 - 1" by (rule INDEX_NONE_max)
  show "\<And>i. i \<le> INDEX_NONE" by (rule INDEX_NONE_max)
  {
    assume "v \<notin> set (elems a) \<and> Insert_value avail a p v = Return r a'"
    then show "Find a' v = Return p a'"
      unfolding Insert_value_def using Find_inserted [OF assms] by blast
  }
qed

theorem Find_FindLast_index_or_sentinel_witness:
  "well_formed \<lparr>mData = Some [Some (5 :: int), Some 6, Some 5, None], mCount = 3, mCapacity = 4\<rparr> \<and>
   Find \<lparr>mData = Some [Some (5 :: int), Some 6, Some 5, None], mCount = 3, mCapacity = 4\<rparr> 5
     = Return 0 \<lparr>mData = Some [Some 5, Some 6, Some 5, None], mCount = 3, mCapacity = 4\<rparr> \<and>
   FindLast \<lparr>mData = Some [Some (5 :: int), Some 6, Some 5, None], mCount = 3, mCapacity = 4\<rparr> 5
     = Return 2 \<lparr>mData = Some [Some 5, Some 6, Some 5, None], mCount = 3, mCapacity = 4\<rparr> \<and>
   Find \<lparr>mData = Some [Some (5 :: int), Some 6, Some 5, None], mCount = 3, mCapacity = 4\<rparr> 9
     = Return INDEX_NONE \<lparr>mData = Some [Some 5, Some 6, Some 5, None], mCount = 3, mCapacity = 4\<rparr> \<and>
   Insert_value (\<lambda>_. True) \<lparr>mData = Some [Some (5 :: int), Some 6, Some 5, None], mCount = 3, mCapacity = 4\<rparr> 1 9
     = Return 1 \<lparr>mData = Some [Some 5, Some 9, Some 6, Some 5], mCount = 4, mCapacity = 4\<rparr> \<and>
   Find \<lparr>mData = Some [Some (5 :: int), Some 9, Some 6, Some 5], mCount = 4, mCapacity = 4\<rparr> 9
     = Return 1 \<lparr>mData = Some [Some 5, Some 9, Some 6, Some 5], mCount = 4, mCapacity = 4\<rparr>"
proof -
  let ?a = "\<lparr>mData = Some [Some (5 :: int), Some 6, Some 5, None], mCount = 3, mCapacity = 4\<rparr>"
  let ?a' = "\<lparr>mData = Some [Some (5 :: int), Some 9, Some 6, Some 5], mCount = 4, mCapacity = 4\<rparr>"
  have w: "well_formed ?a" by (simp add: well_formed_def mem_def PTRDIFF_MAX_def)
  have el: "elems ?a = [5, 6, 5]" by (simp add: elems_def mem_def)
  have f1: "Find ?a 5 = Return 0 ?a"
    by (simp add: Find_def std_find_def std_find_if_def deref_def mem_def)
      (simp add: numeral_3_eq_3 deref_def)
  have f2: "FindLast ?a 5 = Return 2 ?a"
    by (simp add: FindLast_def deref_def mem_def)
      (simp add: numeral_3_eq_3 deref_def mem_def)
  have i: "Insert_value (\<lambda>_. True) ?a 1 9 = Return 1 ?a'"
    by (simp add: Insert_value_def EmplaceAt_def construct_at_def eval_defs word_le_nat_alt word_less_nat_alt)
  note t = Find_FindLast_index_or_sentinel [OF w, where v = 9 and avail = "\<lambda>_. True" and p = 1
      and r = 1 and a' = ?a']
  have f3: "Find ?a 9 = Return INDEX_NONE ?a"
    using conjunct1 [OF conjunct2 [OF t]] by (simp add: el)
  have f4: "Find ?a' 9 = Return 1 ?a'"
    using conjunct2 [OF conjunct2 [OF conjunct2 [OF conjunct2 [OF t]]]] i by (simp add: el)
  from w f1 f2 f3 i f4 show ?thesis by blast
qed

text \<open>
  Claim C10: when the drain insert \<open>Insert(i, std::move(source))\<close> returns, the source has
  count 0 but the capacity it had and the buffer it had (null only if it was null
  before): the objects it held were copied into the target and then destroyed in place, so
  the first \<open>count\<close> slots of its buffer are raw storage and the rest is untouched. The
  move constructor, in contrast, leaves its source with no buffer and capacity 0.
\<close>

theorem Insert_move_source_keeps_buffer:
  assumes "well_formed t" and "well_formed s"
    and "Insert_move avail (t, s) i = Return r (t', s')"
  shows "mCount s' = 0 \<and> mCapacity s' = mCapacity s \<and> (mData s' = None) = (mData s = None) \<and>
         mem s' = replicate (unat (mCount s)) None @ drop (unat (mCount s)) (mem s) \<and>
         length (mem s') = length (mem s) \<and> well_formed s' \<and>
         elems t' = take (unat i) (elems t) @ elems s @ drop (unat i) (elems t) \<and>
         (0 < mCapacity s \<longrightarrow> mData s' \<noteq> mData (snd (Array_move s)) \<and>
                                 mCapacity s' \<noteq> mCapacity (snd (Array_move s)))"
proof -
  note p = Insert_move_Return [OF assms]
  have len: "length (mem s') = length (mem s)"
    using well_formed_count_le [OF assms(2)] well_formed_length_mem [OF assms(2)]
    by (simp add: p(11))
  have "0 < mCapacity s \<longrightarrow> mData s' \<noteq> mData (snd (Array_move s)) \<and>
                                 mCapacity s' \<noteq> mCapacity (snd (Array_move s))"
  proof
    assume c: "0 < mCapacity s"
    then have "mData s \<noteq> None" using assms(2) by (auto simp: well_formed_def)
    then have "mData s' \<noteq> None" using p(10) by simp
    then show "mData s' \<noteq> mData (snd (Array_move s)) \<and> mCapacity s' \<noteq> mCapacity (snd (Array_move s))"
      using c by (simp add: Array_move_def p(9))
  qed
  with p len show ?thesis by simp
qed

theorem Insert_move_source_keeps_buffer_witness:
  "well_formed \<lparr>mData = Some [Some (1 :: int), Some 2, Some 3], mCount = 3, mCapacity = 3\<rparr> \<and>
   well_formed \<lparr>mData = Some [Some (7 :: int), None], mCount = 1, mCapacity = 2\<rparr> \<and>
   Insert_move (\<lambda>_. True)
     (\<lparr>mData = Some [Some (1 :: int), Some 2, Some 3], mCount = 3, mCapacity = 3\<rparr>,
      \<lparr>mData = Some [Some 7, None], mCount = 1, mCapacity = 2\<rparr>) 1
     = Return 1 (\<lparr>mData = Some [Some 1, Some 7, Some 2, Some 3], mCount = 4, mCapacity = 4\<rparr>,
                 \<lparr>mData = Some [None, None], mCount = 0, mCapacity = 2\<rparr>) \<and>
   mCapacity \<lparr>mData = Some [None, None :: int option], mCount = 0, mCapacity = 2\<rparr>
     = mCapacity \<lparr>mData = Some [Some (7 :: int), None], mCount = 1, mCapacity = 2\<rparr>"
proof -
  let ?t = "\<lparr>mData = Some [Some (1 :: int), Some 2, Some 3], mCount = 3, mCapacity = 3\<rparr>"
  let ?s = "\<lparr>mData = Some [Some (7 :: int), None], mCount = 1, mCapacity = 2\<rparr>"
  let ?t' = "\<lparr>mData = Some [Some (1 :: int), Some 7, Some 2, Some 3], mCount = 4, mCapacity = 4\<rparr>"
  let ?s' = "\<lparr>mData = Some [None, None :: int option], mCount = 0, mCapacity = 2\<rparr>"
  have w1: "well_formed ?t" by (simp add: well_formed_def mem_def PTRDIFF_MAX_def)
  have w2: "well_formed ?s" by (simp add: well_formed_def mem_def PTRDIFF_MAX_def)
  have r: "Insert_move (\<lambda>_. True) (?t, ?s) 1 = Return 1 (?t', ?s')"
    by (simp add: eval_defs word_le_nat_alt word_less_nat_alt)
  from Insert_move_source_keeps_buffer [OF w1 w2 r] w1 w2 r show ?thesis by simp
qed

end
